theory Spec2Isabelle
  imports Main "HOL-Library.Word"
begin

unbundle bit_operations_syntax

section \<open>The fixed-segment memory pool (mempool.h, mempool.cpp)\<close>

text \<open>
  A shallow embedding of the class \<open>mempool\<close>. Unsigned fields are natural numbers, with
  the wrap-around written out wherever a value is narrowed (\<open>mod 256\<close>, \<open>mod 65536\<close>,
  \<open>mod 2 ^ 32\<close>); bitmap words are \<open>32 word\<close>; the lookup table holds \<open>int16_t\<close>
  values as \<open>int\<close>. A pointer into the byte arena is its offset from \<open>_buffer\<close>
  (\<open>None\<close> is \<open>nullptr\<close>); a pointer into the bitmap arena is a word index into
  \<open>_pool_buffer\<close>. The build without \<open>MEMPOOL_DEBUG\<close> is the one modelled.
\<close>

subsection \<open>Constants\<close>

text \<open>
  Modelled from the spec: the macros \<open>SEGMENT_STEP\<close> and \<open>SEGMENT_LOG2\<close> are used by
  mempool.cpp but defined in none of the files; the spec's scenario fixes the step at 4
  bytes (sizes 1 and 4 units are 4 and 16 bytes), and \<open>release\<close> shifts offsets by 2.
\<close>

definition SEGMENT_STEP :: nat where
  "SEGMENT_STEP = 4"

definition SEGMENT_LOG2 :: nat where
  "SEGMENT_LOG2 = 2"

subsection \<open>Data\<close>

text \<open>\<open>struct segment { uint16_t count; uint8_t size; }\<close>\<close>

record segment =
  seg_count :: "16 word"
  seg_size :: "8 word"

text \<open>
  What a call can do: return a value, run into undefined behaviour (a read or write
  outside an array, a shift by at least the width, \<open>__builtin_ctz(0)\<close>, a second
  \<open>delete[]\<close> of the same block), or be left by the \<open>std::bad_alloc\<close> of a failing
  \<open>new[]\<close> (the program aborts where exceptions are switched off). The state an
  exception leaves behind is not modelled.
\<close>

datatype 'a outcome = Undefined | Bad_alloc | Returns (the_result: 'a)

text \<open>Observers of what \<open>begin\<close> did: it returned \<open>true\<close>, it returned \<open>false\<close>.\<close>

definition succeeds :: "(bool \<times> 's) outcome \<Rightarrow> bool" where
  "succeeds r = (case r of Undefined \<Rightarrow> False | Bad_alloc \<Rightarrow> False | Returns x \<Rightarrow> fst x)"

definition fails :: "(bool \<times> 's) outcome \<Rightarrow> bool" where
  "fails r = (case r of Undefined \<Rightarrow> False | Bad_alloc \<Rightarrow> False | Returns x \<Rightarrow> \<not> fst x)"

definition state_of :: "(bool \<times> 's) outcome \<Rightarrow> 's" where
  "state_of r = snd (the_result r)"

text \<open>The nine heap blocks the object owns, and what each pointer field holds.\<close>

datatype array_id =
  SegmentSizes | CellCount | MagicNumber | SegmentShift | Buffer | PoolBuffer
  | SegmentLookup | SegmentPtr | PoolPtr

datatype ptr_status = Nullptr | Live | Freed

record mempool =
  initialized :: bool
  buffer_size :: nat
  pool_size :: nat
  pool_buffer :: "32 word list"
  pool_ptr :: "nat list"
  segment_ptr :: "nat list"
  max_segment_size :: nat
  segment_sizes :: "nat list"
  cell_count :: "nat list"
  magic_number :: "nat list"
  segment_shift :: "nat list"
  segment_count :: nat
  segment_lookup :: "int list"
  segment_lookup_count :: nat
  ptrs :: "array_id \<Rightarrow> ptr_status"

text \<open>The state the default member initialisers and the empty constructor leave.\<close>

definition mempool_new :: mempool where
  "mempool_new =
     \<lparr>initialized = False, buffer_size = 0, pool_size = 0, pool_buffer = [],
      pool_ptr = [], segment_ptr = [], max_segment_size = 0, segment_sizes = [],
      cell_count = [], magic_number = [], segment_shift = [], segment_count = 0,
      segment_lookup = [], segment_lookup_count = 0, ptrs = (\<lambda>_. Nullptr)\<rparr>"

subsection \<open>clean\<close>

text \<open>
  \<open>if (p) delete[] p;\<close> for one field: a null pointer is skipped, a live block is freed,
  and the pointer keeps its (now dangling) value, so a second pass deletes it again.
\<close>

definition delete_array :: "array_id \<Rightarrow> mempool \<Rightarrow> mempool outcome" where
  "delete_array a st =
     (case ptrs st a of
        Nullptr \<Rightarrow> Returns st
      | Live \<Rightarrow> Returns (st\<lparr>ptrs := (ptrs st)(a := Freed)\<rparr>)
      | Freed \<Rightarrow> Undefined)"

fun delete_arrays :: "array_id list \<Rightarrow> mempool \<Rightarrow> mempool outcome" where
  "delete_arrays [] st = Returns st"
| "delete_arrays (a # as) st =
     (case delete_array a st of
        Undefined \<Rightarrow> Undefined
      | Bad_alloc \<Rightarrow> Bad_alloc
      | Returns st' \<Rightarrow> delete_arrays as st')"

text \<open>\<open>mempool::clean\<close>: the nine deletes in the source's order, and nothing else.\<close>

definition clean :: "mempool \<Rightarrow> mempool outcome" where
  "clean st =
     delete_arrays
       [SegmentSizes, CellCount, MagicNumber, SegmentShift, Buffer, PoolBuffer,
        SegmentLookup, SegmentPtr, PoolPtr] st"

subsection \<open>begin\<close>

text \<open>\<open>clean(); return false;\<close>\<close>

definition fail :: "mempool \<Rightarrow> (bool \<times> mempool) outcome" where
  "fail st =
     (case clean st of
        Undefined \<Rightarrow> Undefined
      | Bad_alloc \<Rightarrow> Bad_alloc
      | Returns st' \<Rightarrow> Returns (False, st'))"

text \<open>
  Sequencing inside \<open>begin\<close>: a block that ends in \<open>Returns (True, st)\<close> fell through to the
  next statement; \<open>Returns (False, st)\<close> is an early \<open>return false\<close>; undefined behaviour
  and an exception end the call.
\<close>

definition and_then ::
  "(bool \<times> mempool) outcome \<Rightarrow> (mempool \<Rightarrow> (bool \<times> mempool) outcome) \<Rightarrow> (bool \<times> mempool) outcome"
where
  "and_then r k =
     (case r of
        Undefined \<Rightarrow> Undefined
      | Bad_alloc \<Rightarrow> Bad_alloc
      | Returns (ok, st) \<Rightarrow> if ok then k st else Returns (False, st))"

text \<open>
  \<open>p = new T[n]; if (!p) { clean(); return false; }\<close>. The \<open>new[]\<close> is the plain, throwing
  form: when the allocation fails, \<open>std::bad_alloc\<close> leaves \<open>begin\<close> at that statement and
  the null check after it never fires. Whether the allocation of a block fails is a
  parameter of \<open>begin\<close>; \<open>fill\<close> stores the fresh array.
\<close>

definition new_array ::
  "(array_id \<Rightarrow> bool) \<Rightarrow> array_id \<Rightarrow> (mempool \<Rightarrow> mempool) \<Rightarrow> mempool \<Rightarrow> (bool \<times> mempool) outcome"
where
  "new_array oom a fill st =
     (if oom a then Bad_alloc
      else Returns (True, (fill st)\<lparr>ptrs := (ptrs st)(a := Live)\<rparr>))"

text \<open>
  \<open>_get_next_segment\<close>: the index of the smallest size above \<open>current\<close>, first occurrence;
  index 0 when no size is above \<open>current\<close>. \<open>find\<close> starts at \<open>uint16_t(-1)\<close>.
\<close>

definition get_next_segment :: "segment list \<Rightarrow> nat \<Rightarrow> nat \<Rightarrow> nat" where
  "get_next_segment arr count current =
     snd (fold (\<lambda>i (find, ret).
                  if unat (seg_size (arr ! i)) > current \<and> unat (seg_size (arr ! i)) < find
                  then (unat (seg_size (arr ! i)), i) else (find, ret))
            [0..<count] (65535, 0))"

text \<open>
  The placing loop of \<open>begin\<close> (lines 80 to 98), over the remaining values of \<open>i\<close>.
  \<open>segs[i]\<close> is read first; \<open>_get_next_segment\<close> then reads \<open>segs[0 .. count-1]\<close>.
  \<open>_pool_size\<close> is a \<open>uint16_t\<close>.
\<close>

fun place_segments ::
  "segment list \<Rightarrow> nat \<Rightarrow> nat list \<Rightarrow> nat \<Rightarrow> mempool \<Rightarrow> (bool \<times> mempool) outcome"
where
  "place_segments segs count [] currentSize st = Returns (True, st)"
| "place_segments segs count (i # is) currentSize st =
     (if length segs \<le> i then Undefined
      else if unat (seg_size (segs ! i)) = 0 then fail st
      else if length segs < count then Undefined
      else
        let ix = get_next_segment segs count currentSize;
            sz = unat (seg_size (segs ! ix)) * SEGMENT_STEP;
            st1 = st\<lparr>segment_sizes := (segment_sizes st)[i := sz]\<rparr>
        in if sz > 64 then fail st1
           else
             let cc = unat (seg_count (segs ! ix));
                 st2 = st1\<lparr>cell_count := (cell_count st1)[i := cc],
                           buffer_size := (buffer_size st1 + sz * cc) mod 2 ^ 32,
                           pool_size := (((pool_size st1 + (cc + 31) div 32) mod 65536) + 1) mod 65536\<rparr>
             in place_segments segs count is (unat (seg_size (segs ! ix))) st2)"

text \<open>\<open>_lookup_segment\<close>: the first index whose size is at least \<open>size\<close>, or -1.\<close>

definition lookup_segment :: "mempool \<Rightarrow> nat \<Rightarrow> int" where
  "lookup_segment st sz =
     (case List.find (\<lambda>i. segment_sizes st ! i \<ge> sz) [0..<segment_count st] of
        None \<Rightarrow> - 1
      | Some i \<Rightarrow> int i)"

text \<open>The lookup-table loop (lines 120 to 122).\<close>

definition init_lookup :: "mempool \<Rightarrow> mempool" where
  "init_lookup st =
     st\<lparr>segment_lookup :=
          fold (\<lambda>i t. t[i - 1 := lookup_segment st (i * SEGMENT_STEP)])
            [1..<segment_lookup_count st + 1] (segment_lookup st)\<rparr>"

text \<open>
  The pointer loop (lines 125 to 130): \<open>_buffer\<close> is offset 0 of the byte arena and
  \<open>_pool_buffer\<close> is word 0 of the bitmap arena.
\<close>

definition init_pointers :: "nat \<Rightarrow> mempool \<Rightarrow> mempool" where
  "init_pointers count st =
     fold (\<lambda>i s. s\<lparr>segment_ptr := (segment_ptr s)[i + 1 := segment_ptr s ! i + segment_sizes s ! i * cell_count s ! i],
                    pool_ptr := (pool_ptr s)[i + 1 := pool_ptr s ! i + (cell_count s ! i + 31) div 32 + 1]\<rparr>)
       [0..<count - 1]
       (st\<lparr>segment_ptr := (segment_ptr st)[0 := 0], pool_ptr := (pool_ptr st)[0 := 0]\<rparr>)"

text \<open>\<open>__builtin_ctz\<close> on a 32-bit word; the source's result for 0 is undefined, here 32.\<close>

definition ctz :: "32 word \<Rightarrow> nat" where
  "ctz w = length (takeWhile (\<lambda>i. \<not> bit w i) [0..<32])"

text \<open>The test \<open>s & (s - 1)\<close> of a size for not being a power of two.\<close>

definition not_pow2 :: "nat \<Rightarrow> bool" where
  "not_pow2 s \<longleftrightarrow> (word_of_nat s :: 32 word) AND (word_of_nat s - 1) \<noteq> 0"

text \<open>The fast-division loop (lines 133 to 143); \<open>__builtin_ctz\<close> of a zero size is undefined.\<close>

definition init_magic :: "nat \<Rightarrow> mempool \<Rightarrow> (bool \<times> mempool) outcome" where
  "init_magic count st =
     (if list_ex (\<lambda>i. segment_sizes st ! i = 0) [0..<count] then Undefined
      else Returns (True,
        fold (\<lambda>i s.
                if not_pow2 (segment_sizes s ! i)
                then s\<lparr>magic_number := (magic_number s)[i := (65536 + segment_sizes s ! i div 4 - 1) div (segment_sizes s ! i div 4)],
                       segment_shift := (segment_shift s)[i := 16]\<rparr>
                else s\<lparr>magic_number := (magic_number s)[i := 1],
                       segment_shift := (segment_shift s)[i := ctz (word_of_nat (segment_sizes s ! i))]\<rparr>)
          [0..<count] st))"

text \<open>\<open>_prepare_mask\<close>, whose parameter is a \<open>uint8_t\<close>; a shift by 32 or more is undefined.\<close>

definition prepare_mask :: "nat \<Rightarrow> 32 word outcome" where
  "prepare_mask c =
     (if c = 0 then Returns 0
      else if c \<ge> 32 then Undefined
      else Returns (push_bit c (- 1)))"

text \<open>The mask loop (lines 146 to 149): two writes into the bitmap arena per segment.\<close>

fun init_masks :: "nat list \<Rightarrow> mempool \<Rightarrow> (bool \<times> mempool) outcome" where
  "init_masks [] st = Returns (True, st)"
| "init_masks (i # is) st =
     (let g = (cell_count st ! i + 31) div 32;
          pp = pool_ptr st ! i
      in case prepare_mask (g mod 256) of
           Undefined \<Rightarrow> Undefined
         | Bad_alloc \<Rightarrow> Bad_alloc
         | Returns m0 \<Rightarrow>
             if length (pool_buffer st) \<le> pp then Undefined
             else
               (case prepare_mask (cell_count st ! i mod 32) of
                  Undefined \<Rightarrow> Undefined
                | Bad_alloc \<Rightarrow> Bad_alloc
                | Returns m1 \<Rightarrow>
                    if length (pool_buffer st) \<le> pp + g then Undefined
                    else init_masks is
                           (st\<lparr>pool_buffer := (pool_buffer st)[pp := m0, pp + g := m1]\<rparr>)))"

text \<open>
  The six per-segment tables (lines 31 to 61). \<open>oom a\<close> says that the \<open>new\<close> of block \<open>a\<close>
  fails. Arrays allocated without an initialiser are modelled zero-filled: \<open>begin\<close>
  writes every entry before it reads it.
\<close>

definition alloc_tables :: "(array_id \<Rightarrow> bool) \<Rightarrow> nat \<Rightarrow> mempool \<Rightarrow> (bool \<times> mempool) outcome" where
  "alloc_tables oom count st =
     and_then (new_array oom SegmentSizes (\<lambda>s. s\<lparr>segment_sizes := replicate count 0\<rparr>) st) (\<lambda>st.
     and_then (new_array oom CellCount (\<lambda>s. s\<lparr>cell_count := replicate count 0\<rparr>) st) (\<lambda>st.
     and_then (new_array oom MagicNumber (\<lambda>s. s\<lparr>magic_number := replicate count 0\<rparr>) st) (\<lambda>st.
     and_then (new_array oom SegmentShift (\<lambda>s. s\<lparr>segment_shift := replicate count 0\<rparr>) st) (\<lambda>st.
     and_then (new_array oom SegmentPtr (\<lambda>s. s\<lparr>segment_ptr := replicate count 0\<rparr>) st) (\<lambda>st.
     new_array oom PoolPtr (\<lambda>s. s\<lparr>pool_ptr := replicate count 0\<rparr>) st)))))"

text \<open>
  The two arenas and the lookup table (lines 102 to 117); the bytes of \<open>_buffer\<close> are not
  modelled, only its size.
\<close>

definition alloc_buffers :: "(array_id \<Rightarrow> bool) \<Rightarrow> mempool \<Rightarrow> (bool \<times> mempool) outcome" where
  "alloc_buffers oom st =
     and_then (new_array oom Buffer (\<lambda>s. s) st) (\<lambda>st.
     and_then (new_array oom PoolBuffer (\<lambda>s. s\<lparr>pool_buffer := replicate (pool_size s) 0\<rparr>) st) (\<lambda>st.
     new_array oom SegmentLookup
       (\<lambda>s. s\<lparr>segment_lookup := replicate (segment_lookup_count s) 0\<rparr>)
       (st\<lparr>segment_lookup_count := max_segment_size st div SEGMENT_STEP\<rparr>)))"

text \<open>
  \<open>mempool::begin\<close> (\<open>begin\<close> is a keyword of Isabelle, hence the prefix). With
  \<open>count = 0\<close> the read \<open>_segment_sizes[count - 1]\<close> is outside the array.
\<close>

definition mempool_begin ::
  "(array_id \<Rightarrow> bool) \<Rightarrow> mempool \<Rightarrow> segment list \<Rightarrow> nat \<Rightarrow> (bool \<times> mempool) outcome"
where
  "mempool_begin oom st segs count =
     (if initialized st then Returns (False, st)
      else if count > 64 then Returns (False, st)
      else
        and_then (alloc_tables oom count st) (\<lambda>st.
        and_then (place_segments segs count [0..<count] 0
                    (st\<lparr>initialized := True, segment_count := count, buffer_size := 0\<rparr>)) (\<lambda>st.
        if count = 0 then Undefined
        else
          and_then (alloc_buffers oom (st\<lparr>max_segment_size := segment_sizes st ! (count - 1)\<rparr>)) (\<lambda>st.
          and_then (init_magic count (init_pointers count (init_lookup st)))
            (init_masks [0..<count])))))"

subsection \<open>alloc\<close>

text \<open>
  One activation of \<open>mempool::alloc\<close> up to its recursive call: either the call is
  finished, or it re-enters \<open>alloc\<close> with the next segment's size (the state is untouched
  on that path). Every array read is checked where the source makes it.
\<close>

datatype alloc_step = Escalate nat | Done "(int option \<times> mempool) outcome"

text \<open>The index into the lookup table, \<open>((size + SEGMENT_STEP - 1) >> SEGMENT_LOG2) - 1\<close>, an \<open>int\<close>.\<close>

definition lookup_index :: "nat \<Rightarrow> int" where
  "lookup_index sz = int ((sz + SEGMENT_STEP - 1) div 2 ^ SEGMENT_LOG2) - 1"

text \<open>
  Lines 260 to 273: the cell mask of group \<open>pool_index\<close> of segment \<open>sg\<close> is scanned for its
  lowest zero bit, the bit is set, the group bit is set if the group is now full, and the
  address of the cell is returned. \<open>__builtin_ctz(0)\<close> is undefined.
\<close>

definition take_cell :: "mempool \<Rightarrow> nat \<Rightarrow> nat \<Rightarrow> (int option \<times> mempool) outcome" where
  "take_cell st sg pool_index =
     (let pp = pool_ptr st ! sg in
      if length (pool_buffer st) \<le> pp + pool_index + 1 then Undefined
      else
        let cell_mask = pool_buffer st ! (pp + pool_index + 1) in
        if cell_mask = - 1 then Undefined
        else
          let cell_index = ctz (NOT cell_mask);
              cell_mask' = set_bit cell_index cell_mask;
              pb1 = (pool_buffer st)[pp + pool_index + 1 := cell_mask'];
              pb2 = (if cell_mask' = - 1 then pb1[pp := set_bit pool_index (pb1 ! pp)] else pb1)
          in if length (segment_sizes st) \<le> sg then Undefined
             else Returns
                    (Some (int (segment_ptr st ! sg + (pool_index * 32 + cell_index) * segment_sizes st ! sg)),
                     st\<lparr>pool_buffer := pb2\<rparr>))"

text \<open>
  Lines 241 to 259, for the resolved segment \<open>sg\<close>: a full group mask escalates to the next
  segment's size or fails; otherwise the lowest zero bit of the group mask names the group.
\<close>

definition alloc_in_segment :: "mempool \<Rightarrow> nat \<Rightarrow> alloc_step" where
  "alloc_in_segment st sg =
     (if length (segment_ptr st) \<le> sg \<or> length (pool_ptr st) \<le> sg then Done Undefined
      else
        let pp = pool_ptr st ! sg in
        if length (pool_buffer st) \<le> pp then Done Undefined
        else if pool_buffer st ! pp = - 1 then
          (if int sg < int (segment_count st) - 1 then
             (if length (segment_sizes st) \<le> sg + 1 then Done Undefined
              else Escalate (segment_sizes st ! (sg + 1)))
           else Done (Returns (None, st)))
        else
          let pool_index = ctz (NOT (pool_buffer st ! pp)) in
          if length (cell_count st) \<le> sg then Done Undefined
          else if pool_index \<ge> (cell_count st ! sg + 31) div 32 then Done (Returns (None, st))
          else Done (take_cell st sg pool_index))"

text \<open>
  Lines 227 to 239: the size check and the lookup. The table holds \<open>int16_t\<close> and \<open>sg\<close> is a
  \<open>uint8_t\<close>, so the entry is taken modulo 256.
\<close>

definition resolve_segment :: "mempool \<Rightarrow> nat \<Rightarrow> nat" where
  "resolve_segment st sz = nat ((segment_lookup st ! nat (lookup_index sz)) mod 256)"

definition alloc_step :: "mempool \<Rightarrow> nat \<Rightarrow> alloc_step" where
  "alloc_step st sz =
     (if sz > max_segment_size st then Done (Returns (None, st))
      else if lookup_index sz < 0 \<or> int (length (segment_lookup st)) \<le> lookup_index sz
      then Done Undefined
      else if resolve_segment st sz \<ge> segment_count st then Done (Returns (None, st))
      else alloc_in_segment st (resolve_segment st sz))"

text \<open>\<open>mempool::alloc\<close>; \<open>None\<close> is a recursion that never returns.\<close>

partial_function (option) alloc :: "mempool \<Rightarrow> nat \<Rightarrow> (int option \<times> mempool) outcome option" where
  "alloc st sz =
     (case alloc_step st sz of
        Escalate sz' \<Rightarrow> alloc st sz'
      | Done r \<Rightarrow> Some r)"

declare alloc.simps [code]

text \<open>The same recursion with a bound on the number of nested activations.\<close>

fun alloc_bounded :: "nat \<Rightarrow> mempool \<Rightarrow> nat \<Rightarrow> (int option \<times> mempool) outcome option" where
  "alloc_bounded 0 st sz = None"
| "alloc_bounded (Suc n) st sz =
     (case alloc_step st sz of
        Escalate sz' \<Rightarrow> alloc_bounded n st sz'
      | Done r \<Rightarrow> Some r)"

subsection \<open>release\<close>

text \<open>
  The binary search of \<open>release\<close> (lines 284 to 292). \<open>l\<close>, \<open>r\<close> and \<open>m\<close> are \<open>uint8_t\<close>, so
  \<open>r = m - 1\<close> wraps at \<open>m = 0\<close>; \<open>sg\<close> is an \<open>int8_t\<close>. \<open>None\<close> is a loop that never ends.
\<close>

partial_function (option) release_search ::
  "mempool \<Rightarrow> int \<Rightarrow> nat \<Rightarrow> nat \<Rightarrow> int \<Rightarrow> int outcome option"
where
  "release_search st p l r sg =
     (if l \<le> r then
        let m = ((l + r) div 2) mod 256 in
        if length (segment_ptr st) \<le> m then Some Undefined
        else if p < int (segment_ptr st ! m) then release_search st p l ((m + 255) mod 256) sg
        else release_search st p ((m + 1) mod 256) r (if m < 128 then int m else int m - 256)
      else Some (Returns sg))"

declare release_search.simps [code]

text \<open>
  The recovery of the cell index from the byte offset (lines 298 to 306): \<open>offset\<close> is a
  \<open>uint16_t\<close>, the product is a \<open>uint32_t\<close>, and \<open>cellIndex\<close> is a \<open>uint8_t\<close>.
\<close>

definition cell_index_of :: "mempool \<Rightarrow> nat \<Rightarrow> nat \<Rightarrow> nat" where
  "cell_index_of st sg off =
     (let offset = off mod 65536 in
      if not_pow2 (segment_sizes st ! sg)
      then ((((offset div 4) * magic_number st ! sg) mod 2 ^ 32) div 65536) mod 256
      else (offset div 2 ^ (segment_shift st ! sg)) mod 256)"

text \<open>
  Lines 297 to 313, for the segment \<open>sg\<close> the search found: the group bit and the cell bit
  are cleared. A shift of the promoted \<open>int\<close> by 32 or more is undefined.
\<close>

definition release_cell :: "mempool \<Rightarrow> nat \<Rightarrow> int \<Rightarrow> mempool outcome" where
  "release_cell st sg p =
     (if length (segment_ptr st) \<le> sg \<or> length (segment_sizes st) \<le> sg then Undefined
      else if not_pow2 (segment_sizes st ! sg) \<and> length (magic_number st) \<le> sg then Undefined
      else if \<not> not_pow2 (segment_sizes st ! sg)
              \<and> (length (segment_shift st) \<le> sg \<or> 32 \<le> segment_shift st ! sg)
      then Undefined
      else if length (pool_ptr st) \<le> sg then Undefined
      else
        let cellIndex = cell_index_of st sg (nat (p - int (segment_ptr st ! sg)));
            poolIndex = cellIndex div 32;
            bitIndex = cellIndex mod 32;
            pp = pool_ptr st ! sg
        in if length (pool_buffer st) \<le> pp + poolIndex + 1 then Undefined
           else
             let pb1 = (pool_buffer st)[pp := unset_bit poolIndex (pool_buffer st ! pp)];
                 pb2 = pb1[pp + poolIndex + 1 := unset_bit bitIndex (pb1 ! (pp + poolIndex + 1))]
             in Returns (st\<lparr>pool_buffer := pb2\<rparr>))"

text \<open>\<open>mempool::release\<close>; a negative \<open>sg\<close> other than -1 indexes before the arrays.\<close>

definition release :: "mempool \<Rightarrow> int option \<Rightarrow> mempool outcome option" where
  "release st ptr =
     (case ptr of
        None \<Rightarrow> Some (Returns st)
      | Some p \<Rightarrow>
          if \<not> initialized st \<or> p < 0 \<or> int (buffer_size st) \<le> p then Some (Returns st)
          else
            (case release_search st p 0 ((segment_count st + 255) mod 256) (- 1) of
               None \<Rightarrow> None
             | Some Undefined \<Rightarrow> Some Undefined
             | Some Bad_alloc \<Rightarrow> Some Bad_alloc
             | Some (Returns sg) \<Rightarrow>
                 if sg = - 1 then Some (Returns st)
                 else if sg < 0 then Some Undefined
                 else Some (release_cell st (nat sg) p)))"

subsection \<open>The scenario of the spec\<close>

text \<open>
  The allocator of the spec's concrete scenario: \<open>begin\<close> on a fresh object with the segments
  \<open>{count 4, size 1}\<close> and \<open>{count 2, size 4}\<close>, every allocation succeeding.
\<close>

definition scenario :: mempool where
  "scenario =
     state_of (mempool_begin (\<lambda>_. False) mempool_new
       [\<lparr>seg_count = 4, seg_size = 1\<rparr>, \<lparr>seg_count = 2, seg_size = 4\<rparr>] 2)"

section \<open>Definitions for the proofs\<close>

abbreviation sz_of :: "segment list \<Rightarrow> nat \<Rightarrow> nat" where
  "sz_of arr j \<equiv> unat (seg_size (arr ! j))"

definition place_one :: "segment list \<Rightarrow> nat \<Rightarrow> nat \<Rightarrow> mempool \<Rightarrow> mempool" where
  "place_one segs i ix st =
     st\<lparr>segment_sizes := (segment_sizes st)[i := sz_of segs ix * 4],
        cell_count := (cell_count st)[i := unat (seg_count (segs ! ix))],
        buffer_size := (buffer_size st + sz_of segs ix * 4 * unat (seg_count (segs ! ix))) mod 2 ^ 32,
        pool_size := (((pool_size st + (unat (seg_count (segs ! ix)) + 31) div 32) mod 65536) + 1) mod 65536\<rparr>"

definition groups :: "nat \<Rightarrow> nat" where
  "groups cc = (cc + 31) div 32"

definition pool_base :: "nat list \<Rightarrow> nat \<Rightarrow> nat" where
  "pool_base cc k = sum_list (map (\<lambda>j. groups (cc ! j) + 1) [0..<k])"

definition seg_base :: "nat list \<Rightarrow> nat list \<Rightarrow> nat \<Rightarrow> nat" where
  "seg_base szs cc k = sum_list (map (\<lambda>j. szs ! j * cc ! j) [0..<k])"

definition ptr_step :: "nat \<Rightarrow> mempool \<Rightarrow> mempool" where
  "ptr_step i s =
     s\<lparr>segment_ptr := (segment_ptr s)[i + 1 := segment_ptr s ! i + segment_sizes s ! i * cell_count s ! i],
       pool_ptr := (pool_ptr s)[i + 1 := pool_ptr s ! i + (cell_count s ! i + 31) div 32 + 1]\<rparr>"

definition magic_step :: "nat \<Rightarrow> mempool \<Rightarrow> mempool" where
  "magic_step i s =
     (if not_pow2 (segment_sizes s ! i)
      then s\<lparr>magic_number := (magic_number s)[i := (65536 + segment_sizes s ! i div 4 - 1) div (segment_sizes s ! i div 4)],
             segment_shift := (segment_shift s)[i := 16]\<rparr>
      else s\<lparr>magic_number := (magic_number s)[i := 1],
             segment_shift := (segment_shift s)[i := ctz (word_of_nat (segment_sizes s ! i))]\<rparr>)"

definition mask_word :: "nat \<Rightarrow> 32 word" where
  "mask_word c = (if c = 0 then 0 else push_bit c (- 1))"

definition tables_fresh :: "nat \<Rightarrow> mempool \<Rightarrow> mempool \<Rightarrow> bool" where
  "tables_fresh count st0 s \<longleftrightarrow>
     segment_sizes s = replicate count 0 \<and> cell_count s = replicate count 0
     \<and> magic_number s = replicate count 0 \<and> segment_shift s = replicate count 0
     \<and> segment_ptr s = replicate count 0 \<and> pool_ptr s = replicate count 0
     \<and> initialized s \<and> segment_count s = count \<and> buffer_size s = 0 \<and> pool_size s = pool_size st0
     \<and> (\<forall>a. ptrs s a = (if a \<in> {SegmentSizes, CellCount, MagicNumber, SegmentShift, SegmentPtr, PoolPtr}
                            then Live else ptrs st0 a))"

definition buffers_fresh :: "nat \<Rightarrow> mempool \<Rightarrow> mempool \<Rightarrow> bool" where
  "buffers_fresh count s2 s \<longleftrightarrow>
     segment_sizes s = segment_sizes s2 \<and> cell_count s = cell_count s2
     \<and> magic_number s = magic_number s2 \<and> segment_shift s = segment_shift s2
     \<and> segment_ptr s = segment_ptr s2 \<and> pool_ptr s = pool_ptr s2
     \<and> initialized s = initialized s2 \<and> segment_count s = segment_count s2
     \<and> buffer_size s = buffer_size s2 \<and> pool_size s = pool_size s2
     \<and> max_segment_size s = segment_sizes s2 ! (count - 1)
     \<and> pool_buffer s = replicate (pool_size s2) 0
     \<and> segment_lookup_count s = segment_sizes s2 ! (count - 1) div 4
     \<and> segment_lookup s = replicate (segment_sizes s2 ! (count - 1) div 4) 0
     \<and> (\<forall>a. ptrs s a = (if a \<in> {Buffer, PoolBuffer, SegmentLookup} then Live else ptrs s2 a))"

definition tables_ok :: "mempool \<Rightarrow> bool" where
  "tables_ok st \<longleftrightarrow>
     initialized st \<and> 1 \<le> segment_count st \<and> segment_count st \<le> 64
     \<and> length (segment_sizes st) = segment_count st
     \<and> (\<forall>k < segment_count st. 4 \<le> segment_sizes st ! k \<and> segment_sizes st ! k \<le> 64
            \<and> 4 dvd segment_sizes st ! k)
     \<and> max_segment_size st = segment_sizes st ! (segment_count st - 1)
     \<and> length (segment_lookup st) = max_segment_size st div 4
     \<and> (\<forall>i < length (segment_lookup st). segment_lookup st ! i = lookup_segment st ((i + 1) * 4))"

definition layout_ok :: "mempool \<Rightarrow> bool" where
  "layout_ok st \<longleftrightarrow>
     length (cell_count st) = segment_count st \<and> length (segment_ptr st) = segment_count st
     \<and> length (pool_ptr st) = segment_count st \<and> length (magic_number st) = segment_count st
     \<and> length (segment_shift st) = segment_count st
     \<and> (\<forall>k < segment_count st. 1 \<le> cell_count st ! k \<and> cell_count st ! k \<le> 992)
     \<and> (\<forall>k < segment_count st. segment_ptr st ! k = seg_base (segment_sizes st) (cell_count st) k)
     \<and> buffer_size st = seg_base (segment_sizes st) (cell_count st) (segment_count st)
     \<and> (\<forall>k < segment_count st. pool_ptr st ! k = pool_base (cell_count st) k)
     \<and> length (pool_buffer st) = pool_base (cell_count st) (segment_count st)
     \<and> (\<forall>k < segment_count st.
            if not_pow2 (segment_sizes st ! k)
            then magic_number st ! k = (65536 + segment_sizes st ! k div 4 - 1) div (segment_sizes st ! k div 4)
            else segment_shift st ! k = ctz (word_of_nat (segment_sizes st ! k)))"

definition mask_inv :: "mempool \<Rightarrow> bool" where
  "mask_inv st \<longleftrightarrow>
     (\<forall>k < segment_count st.
        (\<forall>g < groups (cell_count st ! k).
           bit (pool_buffer st ! (pool_ptr st ! k)) g
             \<longleftrightarrow> (\<forall>b < 32. bit (pool_buffer st ! (pool_ptr st ! k + 1 + g)) b))
        \<and> (\<forall>g < 32. groups (cell_count st ! k) \<le> g \<longrightarrow> bit (pool_buffer st ! (pool_ptr st ! k)) g)
        \<and> (\<forall>b < 32. cell_count st ! k \<le> (groups (cell_count st ! k) - 1) * 32 + b
               \<longrightarrow> bit (pool_buffer st ! (pool_ptr st ! k + groups (cell_count st ! k))) b))"

text \<open>An initialized allocator: what a successful \<open>begin\<close> returns, and what \<open>alloc\<close> and
  \<open>release\<close> make of it.\<close>

inductive reachable :: "mempool \<Rightarrow> bool" where
  init: "mempool_begin oom st0 segs count = Returns (True, st) \<Longrightarrow> reachable st"
| alloc: "reachable st \<Longrightarrow> alloc st sz = Some (Returns (p, st')) \<Longrightarrow> reachable st'"
| release: "reachable st \<Longrightarrow> release st p = Some (Returns st') \<Longrightarrow> reachable st'"

definition no_freed :: "mempool \<Rightarrow> bool" where
  "no_freed st \<longleftrightarrow> (\<forall>a. ptrs st a \<noteq> Freed)"

definition above :: "segment list \<Rightarrow> nat \<Rightarrow> nat \<Rightarrow> nat set" where
  "above segs count cur = {s. \<exists>j < count. s = sz_of segs j \<and> cur < s}"

text \<open>The whole invariant of an initialized allocator whose pools have 1 to 992 cells.\<close>

definition well_formed :: "mempool \<Rightarrow> bool" where
  "well_formed st \<longleftrightarrow> tables_ok st \<and> layout_ok st \<and> mask_inv st"

text \<open>Cell \<open>c\<close> of segment \<open>k\<close> is marked used.\<close>

definition cell_used :: "mempool \<Rightarrow> nat \<Rightarrow> nat \<Rightarrow> bool" where
  "cell_used st k c \<longleftrightarrow> bit (pool_buffer st ! (pool_ptr st ! k + 1 + c div 32)) (c mod 32)"

text \<open>\<open>n\<close> consecutive calls \<open>alloc(sz)\<close>: the pointers they return, in order.\<close>

fun alloc_many :: "nat \<Rightarrow> mempool \<Rightarrow> nat \<Rightarrow> (int option list \<times> mempool) outcome option" where
  "alloc_many 0 st sz = Some (Returns ([], st))"
| "alloc_many (Suc n) st sz =
     (case alloc st sz of
        None \<Rightarrow> None
      | Some Undefined \<Rightarrow> Some Undefined
      | Some Bad_alloc \<Rightarrow> Some Bad_alloc
      | Some (Returns (p, st')) \<Rightarrow>
          (case alloc_many n st' sz of
             None \<Rightarrow> None
           | Some Undefined \<Rightarrow> Some Undefined
           | Some Bad_alloc \<Rightarrow> Some Bad_alloc
           | Some (Returns (ps, st'')) \<Rightarrow> Some (Returns (p # ps, st''))))"

text \<open>
  A single segment of 4-byte cells whose group mask is \<open>0xFFFFFFFE\<close>: only the cells of
  group 0 are handed out, whatever the cell count is.
\<close>

definition narrow :: "mempool \<Rightarrow> bool" where
  "narrow st \<longleftrightarrow>
     segment_count st = 1 \<and> max_segment_size st = 4 \<and> segment_lookup st = [0]
     \<and> segment_sizes st = [4] \<and> length (cell_count st) = 1 \<and> 1 \<le> cell_count st ! 0
     \<and> pool_ptr st = [0] \<and> segment_ptr st = [0] \<and> 2 \<le> length (pool_buffer st)"

text \<open>
  The states an allocator with pools of 1 to 992 cells goes through: what a successful
  \<open>begin\<close> on a fresh object returns, what an \<open>alloc\<close> call that returns leaves, and what
  \<open>release\<close> of the address of one of the cells leaves.
\<close>

inductive valid_run :: "mempool \<Rightarrow> bool" where
  init: "mempool_begin oom mempool_new segs count = Returns (True, st) \<Longrightarrow>
         \<forall>i < count. 1 \<le> unat (seg_count (segs ! i)) \<and> unat (seg_count (segs ! i)) \<le> 992 \<Longrightarrow>
         valid_run st"
| alloc: "valid_run st \<Longrightarrow> alloc st sz = Some (Returns (p, st')) \<Longrightarrow> valid_run st'"
| release: "valid_run st \<Longrightarrow> k < segment_count st \<Longrightarrow> i < cell_count st ! k \<Longrightarrow>
         release st (Some (int (segment_ptr st ! k + i * segment_sizes st ! k))) = Some (Returns st') \<Longrightarrow>
         valid_run st'"

section \<open>Lemmas\<close>

lemma and_then_Returns [simp]:
  "and_then (Returns (True, s)) k = k s"
  "and_then (Returns (False, s)) k = Returns (False, s)"
  "and_then Undefined k = Undefined"
  "and_then Bad_alloc k = Bad_alloc"
  by (simp_all add: and_then_def)

lemma and_then_True_iff:
  "and_then r k = Returns (True, st) \<longleftrightarrow> (\<exists>s. r = Returns (True, s) \<and> k s = Returns (True, st))"
  by (cases r) (auto simp: and_then_def split: if_splits)

lemma fail_not_True [simp]: "fail st \<noteq> Returns (True, s)"
  by (simp add: fail_def split: outcome.splits)

lemma sz_of_lt: "sz_of arr j < 256"
  using unsigned_less [of "seg_size (arr ! j)", where 'a = nat] by simp

lemma gns_fold:
  "fold (\<lambda>i (find, ret).
           if sz_of arr i > cur \<and> sz_of arr i < find then (sz_of arr i, i) else (find, ret))
     [0..<n] (65535, 0) = (f, r) \<Longrightarrow>
   (r = 0 \<or> r < n) \<and>
   ((\<forall>j<n. sz_of arr j \<le> cur) \<longrightarrow> f = 65535 \<and> r = 0) \<and>
   ((\<exists>j<n. cur < sz_of arr j) \<longrightarrow>
      r < n \<and> sz_of arr r = f \<and> cur < f \<and> (\<forall>j<n. cur < sz_of arr j \<longrightarrow> f \<le> sz_of arr j))"
proof (induction n arbitrary: f r)
  case 0
  then show ?case by simp
next
  case (Suc n)
  obtain f0 r0 where fr0: "fold (\<lambda>i (find, ret).
           if sz_of arr i > cur \<and> sz_of arr i < find then (sz_of arr i, i) else (find, ret))
     [0..<n] (65535, 0) = (f0, r0)"
    by (cases "fold (\<lambda>i (find, ret).
           if sz_of arr i > cur \<and> sz_of arr i < find then (sz_of arr i, i) else (find, ret))
     [0..<n] (65535, 0)") auto
  note ih = Suc.IH [OF fr0]
  have step: "(f, r) = (if sz_of arr n > cur \<and> sz_of arr n < f0 then (sz_of arr n, n) else (f0, r0))"
    using Suc.prems fr0 by simp
  have lt: "sz_of arr n < 65535" using sz_of_lt [of arr n] by simp
  show ?case
  proof (cases "\<exists>j<n. cur < sz_of arr j")
    case True
    with ih have a: "r0 < n" "sz_of arr r0 = f0" "cur < f0" "\<forall>j<n. cur < sz_of arr j \<longrightarrow> f0 \<le> sz_of arr j"
      by auto
    show ?thesis
    proof (cases "sz_of arr n > cur \<and> sz_of arr n < f0")
      case True
      with step have "f = sz_of arr n" "r = n" by auto
      with True a show ?thesis by (auto simp: less_Suc_eq)
    next
      case False
      with step have "f = f0" "r = r0" by auto
      with False a True show ?thesis by (auto simp: less_Suc_eq)
    qed
  next
    case False
    with ih have a: "f0 = 65535" "r0 = 0" by auto
    show ?thesis
    proof (cases "sz_of arr n > cur")
      case True
      with step a lt have "f = sz_of arr n" "r = n" by auto
      with True False show ?thesis by (auto simp: less_Suc_eq)
    next
      case False
      with step a have "f = 65535" "r = 0" by auto
      with False \<open>\<not> (\<exists>j<n. cur < sz_of arr j)\<close> show ?thesis by (auto simp: less_Suc_eq)
    qed
  qed
qed

lemma gns_props:
  "(get_next_segment arr n cur = 0 \<or> get_next_segment arr n cur < n) \<and>
   ((\<forall>j<n. sz_of arr j \<le> cur) \<longrightarrow> get_next_segment arr n cur = 0) \<and>
   ((\<exists>j<n. cur < sz_of arr j) \<longrightarrow>
      get_next_segment arr n cur < n \<and> cur < sz_of arr (get_next_segment arr n cur)
      \<and> (\<forall>j<n. cur < sz_of arr j \<longrightarrow> sz_of arr (get_next_segment arr n cur) \<le> sz_of arr j))"
proof -
  obtain f r where fr: "fold (\<lambda>i (find, ret).
           if sz_of arr i > cur \<and> sz_of arr i < find then (sz_of arr i, i) else (find, ret))
     [0..<n] (65535, 0) = (f, r)"
    by (cases "fold (\<lambda>i (find, ret).
           if sz_of arr i > cur \<and> sz_of arr i < find then (sz_of arr i, i) else (find, ret))
     [0..<n] (65535, 0)") auto
  have r: "get_next_segment arr n cur = r"
    by (simp add: get_next_segment_def fr)
  from gns_fold [OF fr] show ?thesis unfolding r by auto
qed

lemma gns_less: "0 < n \<Longrightarrow> get_next_segment arr n cur < n"
  using gns_props [of arr n cur] by auto

lemma place_segments_Cons:
  "place_segments segs count (i # is) cur st =
     (if length segs \<le> i then Undefined
      else if sz_of segs i = 0 then fail st
      else if length segs < count then Undefined
      else if sz_of segs (get_next_segment segs count cur) * 4 > 64
        then fail (st\<lparr>segment_sizes := (segment_sizes st)[i := sz_of segs (get_next_segment segs count cur) * 4]\<rparr>)
      else place_segments segs count is (sz_of segs (get_next_segment segs count cur))
             (place_one segs i (get_next_segment segs count cur) st))"
  by (simp add: Let_def SEGMENT_STEP_def place_one_def)

lemma place_segments_Cons_True:
  assumes "place_segments segs count (i # is) cur st = Returns (True, st')"
  shows "i < length segs" "sz_of segs i \<noteq> 0" "count \<le> length segs"
    "sz_of segs (get_next_segment segs count cur) * 4 \<le> 64"
    "place_segments segs count is (sz_of segs (get_next_segment segs count cur))
             (place_one segs i (get_next_segment segs count cur) st) = Returns (True, st')"
  using assms unfolding place_segments_Cons by (simp_all split: if_splits)

lemma place_segments_frame:
  "place_segments segs count is cur st = Returns (True, st') \<Longrightarrow>
     initialized st' = initialized st \<and> pool_buffer st' = pool_buffer st \<and> pool_ptr st' = pool_ptr st
     \<and> segment_ptr st' = segment_ptr st \<and> max_segment_size st' = max_segment_size st
     \<and> magic_number st' = magic_number st \<and> segment_shift st' = segment_shift st
     \<and> segment_count st' = segment_count st \<and> segment_lookup st' = segment_lookup st
     \<and> segment_lookup_count st' = segment_lookup_count st \<and> ptrs st' = ptrs st
     \<and> length (segment_sizes st') = length (segment_sizes st)
     \<and> length (cell_count st') = length (cell_count st)"
proof (induction "is" arbitrary: cur st)
  case Nil
  then show ?case by simp
next
  case (Cons i "is")
  from Cons.IH [OF place_segments_Cons_True(5) [OF Cons.prems]]
  show ?case by (simp add: place_one_def)
qed

lemma place_segments_unchanged:
  "place_segments segs count is cur st = Returns (True, st') \<Longrightarrow> k \<notin> set is \<Longrightarrow>
     segment_sizes st' ! k = segment_sizes st ! k \<and> cell_count st' ! k = cell_count st ! k"
proof (induction "is" arbitrary: cur st)
  case Nil
  then show ?case by simp
next
  case (Cons i "is")
  from Cons.prems(2) have "k \<notin> set is" "k \<noteq> i" by auto
  from Cons.IH [OF place_segments_Cons_True(5) [OF Cons.prems(1)] this(1)] this(2)
  show ?case by (simp add: place_one_def)
qed

text \<open>What the loop stores at the indices it visits.\<close>

lemma place_segments_values:
  "place_segments segs count is cur st = Returns (True, st') \<Longrightarrow> distinct is \<Longrightarrow>
   sz_of segs 0 \<noteq> 0 \<Longrightarrow> \<forall>i\<in>set is. i < length (segment_sizes st) \<and> i < length (cell_count st) \<Longrightarrow>
   k \<in> set is \<Longrightarrow>
     4 \<le> segment_sizes st' ! k \<and> segment_sizes st' ! k \<le> 64 \<and> 4 dvd segment_sizes st' ! k
     \<and> (\<exists>ix. (ix = 0 \<or> ix < count) \<and> cell_count st' ! k = unat (seg_count (segs ! ix))
          \<and> segment_sizes st' ! k = sz_of segs ix * 4)"
proof (induction "is" arbitrary: cur st)
  case Nil
  then show ?case by simp
next
  case (Cons i "is")
  let ?ix = "get_next_segment segs count cur"
  let ?st2 = "place_one segs i ?ix st"
  note t = place_segments_Cons_True [OF Cons.prems(1)]
  have nz: "sz_of segs ?ix \<noteq> 0"
    using gns_props [of segs count cur] Cons.prems(3)
    by (cases "\<exists>j<count. cur < sz_of segs j") auto
  have ixr: "?ix = 0 \<or> ?ix < count"
    using gns_props [of segs count cur] by simp
  show ?case
  proof (cases "k = i")
    case True
    with Cons.prems(2) have "k \<notin> set is" by simp
    from place_segments_unchanged [OF t(5) this] True Cons.prems(4)
    have "segment_sizes st' ! k = sz_of segs ?ix * 4" "cell_count st' ! k = unat (seg_count (segs ! ?ix))"
      by (simp_all add: place_one_def)
    with t(4) nz ixr show ?thesis
      by auto
  next
    case False
    with Cons.prems(5) have "k \<in> set is" by simp
    moreover from Cons.prems(2) have "distinct is" by simp
    moreover from Cons.prems(4)
    have "\<forall>i\<in>set is. i < length (segment_sizes ?st2) \<and> i < length (cell_count ?st2)"
      by (simp add: place_one_def)
    ultimately show ?thesis
      using Cons.IH [OF t(5) _ Cons.prems(3)] by blast
  qed
qed

lemma pool_base_simps [simp]:
  "pool_base cc 0 = 0"
  "pool_base cc (Suc k) = pool_base cc k + groups (cc ! k) + 1"
  by (simp_all add: pool_base_def)

lemma seg_base_simps [simp]:
  "seg_base szs cc 0 = 0"
  "seg_base szs cc (Suc k) = seg_base szs cc k + szs ! k * cc ! k"
  by (simp_all add: seg_base_def)

lemma place_segments_sums:
  "place_segments segs count is cur st = Returns (True, st') \<Longrightarrow> distinct is \<Longrightarrow>
   \<forall>i\<in>set is. i < length (segment_sizes st) \<and> i < length (cell_count st) \<Longrightarrow>
   pool_size st < 65536 \<Longrightarrow> buffer_size st < 2 ^ 32 \<Longrightarrow>
     pool_size st' = (pool_size st + sum_list (map (\<lambda>k. groups (cell_count st' ! k) + 1) is)) mod 65536
     \<and> buffer_size st' = (buffer_size st + sum_list (map (\<lambda>k. segment_sizes st' ! k * cell_count st' ! k) is)) mod 2 ^ 32"
proof (induction "is" arbitrary: cur st)
  case Nil
  then show ?case
    by simp
next
  case (Cons i "is")
  let ?ix = "get_next_segment segs count cur"
  let ?st2 = "place_one segs i ?ix st"
  note t = place_segments_Cons_True [OF Cons.prems(1)]
  from Cons.prems(2) have d: "distinct is" "i \<notin> set is" by auto
  from Cons.prems(3) have b: "\<forall>i\<in>set is. i < length (segment_sizes ?st2) \<and> i < length (cell_count ?st2)"
    by (simp add: place_one_def)
  have "pool_size ?st2 < 65536" "buffer_size ?st2 < 2 ^ 32"
    by (simp_all add: place_one_def)
  note ih = Cons.IH [OF t(5) d(1) b this]
  from place_segments_unchanged [OF t(5) d(2)] Cons.prems(3)
  have v: "segment_sizes st' ! i = sz_of segs ?ix * 4" "cell_count st' ! i = unat (seg_count (segs ! ?ix))"
    by (simp_all add: place_one_def)
  have ps: "pool_size ?st2 = (pool_size st + (groups (cell_count st' ! i) + 1)) mod 65536"
    by (simp add: place_one_def v groups_def mod_simps)
  have bs: "buffer_size ?st2 = (buffer_size st + segment_sizes st' ! i * cell_count st' ! i) mod 2 ^ 32"
    by (simp add: place_one_def v)
  show ?case
    unfolding ih [THEN conjunct1] ih [THEN conjunct2] ps bs
    by (simp add: mod_simps add.assoc)
qed

subsection \<open>The lookup table\<close>

lemma lookup_fold_eq:
  "fold (\<lambda>i t. t[i - 1 := f i]) [1..<n + 1] t = fold (\<lambda>i t. t[i := f (Suc i)]) [0..<n] t"
proof -
  have "[1..<n + 1] = map Suc [0..<n]"
    by (simp add: map_Suc_upt)
  then show ?thesis
    by (simp add: fold_map comp_def)
qed

lemma fold_update_length [simp]:
  "length (fold (\<lambda>i t. t[i := g i]) is t) = length t"
  by (induction "is" arbitrary: t) simp_all

lemma lookup_fold_length [simp]:
  "length (fold (\<lambda>i t. t[i - 1 := f i]) [1..<n + 1] t) = length t"
  unfolding lookup_fold_eq by (induction n) simp_all

lemma lookup_fold_nth:
  "i < n \<Longrightarrow> i < length t \<Longrightarrow> fold (\<lambda>i t. t[i - 1 := f i]) [1..<n + 1] t ! i = f (i + 1)"
  unfolding lookup_fold_eq
proof (induction n)
  case 0
  then show ?case by simp
next
  case (Suc n)
  then show ?case
    by (cases "i = n") (simp_all add: nth_list_update)
qed

lemma init_lookup_eq:
  "init_lookup st =
     st\<lparr>segment_lookup :=
          fold (\<lambda>i t. t[i := lookup_segment st (Suc i * SEGMENT_STEP)])
            [0..<segment_lookup_count st] (segment_lookup st)\<rparr>"
  unfolding init_lookup_def lookup_fold_eq ..

lemma init_lookup_frame:
  "initialized (init_lookup st) = initialized st"
  "buffer_size (init_lookup st) = buffer_size st"
  "pool_size (init_lookup st) = pool_size st"
  "pool_buffer (init_lookup st) = pool_buffer st"
  "pool_ptr (init_lookup st) = pool_ptr st"
  "segment_ptr (init_lookup st) = segment_ptr st"
  "max_segment_size (init_lookup st) = max_segment_size st"
  "segment_sizes (init_lookup st) = segment_sizes st"
  "cell_count (init_lookup st) = cell_count st"
  "magic_number (init_lookup st) = magic_number st"
  "segment_shift (init_lookup st) = segment_shift st"
  "segment_count (init_lookup st) = segment_count st"
  "segment_lookup_count (init_lookup st) = segment_lookup_count st"
  "ptrs (init_lookup st) = ptrs st"
  "length (segment_lookup (init_lookup st)) = length (segment_lookup st)"
  by (simp_all add: init_lookup_eq)

lemma lookup_segment_cong:
  "segment_sizes st' = segment_sizes st \<Longrightarrow> segment_count st' = segment_count st \<Longrightarrow>
   lookup_segment st' = lookup_segment st"
  by (rule ext) (simp add: lookup_segment_def)

lemma init_lookup_nth:
  "i < segment_lookup_count st \<Longrightarrow> i < length (segment_lookup st) \<Longrightarrow>
   segment_lookup (init_lookup st) ! i = lookup_segment st ((i + 1) * 4)"
  using lookup_fold_nth [of i "segment_lookup_count st" "segment_lookup st" "\<lambda>i. lookup_segment st (i * SEGMENT_STEP)"]
  unfolding init_lookup_def by (simp add: SEGMENT_STEP_def)

subsection \<open>The base pointers\<close>

lemma ptr_step_simps [simp]:
  "segment_ptr (ptr_step i s) = (segment_ptr s)[i + 1 := segment_ptr s ! i + segment_sizes s ! i * cell_count s ! i]"
  "pool_ptr (ptr_step i s) = (pool_ptr s)[i + 1 := pool_ptr s ! i + (cell_count s ! i + 31) div 32 + 1]"
  "initialized (ptr_step i s) = initialized s"
  "buffer_size (ptr_step i s) = buffer_size s"
  "pool_size (ptr_step i s) = pool_size s"
  "pool_buffer (ptr_step i s) = pool_buffer s"
  "max_segment_size (ptr_step i s) = max_segment_size s"
  "segment_sizes (ptr_step i s) = segment_sizes s"
  "cell_count (ptr_step i s) = cell_count s"
  "magic_number (ptr_step i s) = magic_number s"
  "segment_shift (ptr_step i s) = segment_shift s"
  "segment_count (ptr_step i s) = segment_count s"
  "segment_lookup (ptr_step i s) = segment_lookup s"
  "segment_lookup_count (ptr_step i s) = segment_lookup_count s"
  "ptrs (ptr_step i s) = ptrs s"
  by (simp_all add: ptr_step_def)

lemma ptr_fold_frame:
  "initialized (fold ptr_step is s) = initialized s
   \<and> buffer_size (fold ptr_step is s) = buffer_size s
   \<and> pool_size (fold ptr_step is s) = pool_size s
   \<and> pool_buffer (fold ptr_step is s) = pool_buffer s
   \<and> max_segment_size (fold ptr_step is s) = max_segment_size s
   \<and> segment_sizes (fold ptr_step is s) = segment_sizes s
   \<and> cell_count (fold ptr_step is s) = cell_count s
   \<and> magic_number (fold ptr_step is s) = magic_number s
   \<and> segment_shift (fold ptr_step is s) = segment_shift s
   \<and> segment_count (fold ptr_step is s) = segment_count s
   \<and> segment_lookup (fold ptr_step is s) = segment_lookup s
   \<and> segment_lookup_count (fold ptr_step is s) = segment_lookup_count s
   \<and> ptrs (fold ptr_step is s) = ptrs s
   \<and> length (segment_ptr (fold ptr_step is s)) = length (segment_ptr s)
   \<and> length (pool_ptr (fold ptr_step is s)) = length (pool_ptr s)"
  by (induction "is" arbitrary: s) simp_all

lemma ptr_fold_values:
  "segment_ptr s ! 0 = 0 \<Longrightarrow> pool_ptr s ! 0 = 0 \<Longrightarrow> n < length (segment_ptr s) \<Longrightarrow>
   n < length (pool_ptr s) \<Longrightarrow> k \<le> n \<Longrightarrow>
   segment_ptr (fold ptr_step [0..<n] s) ! k = seg_base (segment_sizes s) (cell_count s) k
   \<and> pool_ptr (fold ptr_step [0..<n] s) ! k = pool_base (cell_count s) k"
proof (induction n arbitrary: k)
  case 0
  then show ?case by simp
next
  case (Suc n)
  let ?s = "fold ptr_step [0..<n] s"
  note fr = ptr_fold_frame [of "[0..<n]" s]
  from Suc.prems have ih: "\<And>k. k \<le> n \<Longrightarrow>
      segment_ptr ?s ! k = seg_base (segment_sizes s) (cell_count s) k
      \<and> pool_ptr ?s ! k = pool_base (cell_count s) k"
    using Suc.IH by simp
  show ?case
  proof (cases "k = Suc n")
    case True
    with Suc.prems fr ih [of n] show ?thesis
      by (simp add: groups_def)
  next
    case False
    with Suc.prems have "k \<le> n" by simp
    with ih [of k] fr show ?thesis
      by simp
  qed
qed

lemma init_pointers_eq:
  "init_pointers count st =
     fold ptr_step [0..<count - 1]
       (st\<lparr>segment_ptr := (segment_ptr st)[0 := 0], pool_ptr := (pool_ptr st)[0 := 0]\<rparr>)"
proof -
  have "(\<lambda>i s. s\<lparr>segment_ptr := (segment_ptr s)[i + 1 := segment_ptr s ! i + segment_sizes s ! i * cell_count s ! i],
                    pool_ptr := (pool_ptr s)[i + 1 := pool_ptr s ! i + (cell_count s ! i + 31) div 32 + 1]\<rparr>) = ptr_step"
    by (intro ext) (simp add: ptr_step_def)
  then show ?thesis by (simp add: init_pointers_def)
qed

lemma init_pointers_frame:
  "initialized (init_pointers count st) = initialized st"
  "buffer_size (init_pointers count st) = buffer_size st"
  "pool_size (init_pointers count st) = pool_size st"
  "pool_buffer (init_pointers count st) = pool_buffer st"
  "max_segment_size (init_pointers count st) = max_segment_size st"
  "segment_sizes (init_pointers count st) = segment_sizes st"
  "cell_count (init_pointers count st) = cell_count st"
  "magic_number (init_pointers count st) = magic_number st"
  "segment_shift (init_pointers count st) = segment_shift st"
  "segment_count (init_pointers count st) = segment_count st"
  "segment_lookup (init_pointers count st) = segment_lookup st"
  "segment_lookup_count (init_pointers count st) = segment_lookup_count st"
  "ptrs (init_pointers count st) = ptrs st"
  "length (segment_ptr (init_pointers count st)) = length (segment_ptr st)"
  "length (pool_ptr (init_pointers count st)) = length (pool_ptr st)"
  unfolding init_pointers_eq
  using ptr_fold_frame [of "[0..<count - 1]" "st\<lparr>segment_ptr := (segment_ptr st)[0 := 0], pool_ptr := (pool_ptr st)[0 := 0]\<rparr>"]
  by simp_all

lemma init_pointers_values:
  assumes "0 < count" "length (segment_ptr st) = count" "length (pool_ptr st) = count" "k < count"
  shows "segment_ptr (init_pointers count st) ! k = seg_base (segment_sizes st) (cell_count st) k"
    and "pool_ptr (init_pointers count st) ! k = pool_base (cell_count st) k"
  unfolding init_pointers_eq
  using ptr_fold_values [of "st\<lparr>segment_ptr := (segment_ptr st)[0 := 0], pool_ptr := (pool_ptr st)[0 := 0]\<rparr>" "count - 1" k] assms
  by simp_all

subsection \<open>The fast-division parameters\<close>

lemma init_magic_eq:
  "init_magic count st =
     (if list_ex (\<lambda>i. segment_sizes st ! i = 0) [0..<count] then Undefined
      else Returns (True, fold magic_step [0..<count] st))"
proof -
  have "(\<lambda>i s.
                if not_pow2 (segment_sizes s ! i)
                then s\<lparr>magic_number := (magic_number s)[i := (65536 + segment_sizes s ! i div 4 - 1) div (segment_sizes s ! i div 4)],
                       segment_shift := (segment_shift s)[i := 16]\<rparr>
                else s\<lparr>magic_number := (magic_number s)[i := 1],
                       segment_shift := (segment_shift s)[i := ctz (word_of_nat (segment_sizes s ! i))]\<rparr>) = magic_step"
    by (intro ext) (simp add: magic_step_def)
  then show ?thesis by (simp add: init_magic_def)
qed

lemma magic_step_simps [simp]:
  "magic_number (magic_step i s) =
     (magic_number s)[i := (if not_pow2 (segment_sizes s ! i)
                            then (65536 + segment_sizes s ! i div 4 - 1) div (segment_sizes s ! i div 4) else 1)]"
  "segment_shift (magic_step i s) =
     (segment_shift s)[i := (if not_pow2 (segment_sizes s ! i) then 16
                             else ctz (word_of_nat (segment_sizes s ! i)))]"
  "initialized (magic_step i s) = initialized s"
  "buffer_size (magic_step i s) = buffer_size s"
  "pool_size (magic_step i s) = pool_size s"
  "pool_buffer (magic_step i s) = pool_buffer s"
  "pool_ptr (magic_step i s) = pool_ptr s"
  "segment_ptr (magic_step i s) = segment_ptr s"
  "max_segment_size (magic_step i s) = max_segment_size s"
  "segment_sizes (magic_step i s) = segment_sizes s"
  "cell_count (magic_step i s) = cell_count s"
  "segment_count (magic_step i s) = segment_count s"
  "segment_lookup (magic_step i s) = segment_lookup s"
  "segment_lookup_count (magic_step i s) = segment_lookup_count s"
  "ptrs (magic_step i s) = ptrs s"
  by (simp_all add: magic_step_def)

lemma magic_fold_frame:
  "initialized (fold magic_step is s) = initialized s
   \<and> buffer_size (fold magic_step is s) = buffer_size s
   \<and> pool_size (fold magic_step is s) = pool_size s
   \<and> pool_buffer (fold magic_step is s) = pool_buffer s
   \<and> pool_ptr (fold magic_step is s) = pool_ptr s
   \<and> segment_ptr (fold magic_step is s) = segment_ptr s
   \<and> max_segment_size (fold magic_step is s) = max_segment_size s
   \<and> segment_sizes (fold magic_step is s) = segment_sizes s
   \<and> cell_count (fold magic_step is s) = cell_count s
   \<and> segment_count (fold magic_step is s) = segment_count s
   \<and> segment_lookup (fold magic_step is s) = segment_lookup s
   \<and> segment_lookup_count (fold magic_step is s) = segment_lookup_count s
   \<and> ptrs (fold magic_step is s) = ptrs s
   \<and> length (magic_number (fold magic_step is s)) = length (magic_number s)
   \<and> length (segment_shift (fold magic_step is s)) = length (segment_shift s)"
  by (induction "is" arbitrary: s) simp_all

lemma magic_fold_values:
  "n \<le> length (magic_number s) \<Longrightarrow> n \<le> length (segment_shift s) \<Longrightarrow> k < n \<Longrightarrow>
   (if not_pow2 (segment_sizes s ! k)
    then magic_number (fold magic_step [0..<n] s) ! k = (65536 + segment_sizes s ! k div 4 - 1) div (segment_sizes s ! k div 4)
    else segment_shift (fold magic_step [0..<n] s) ! k = ctz (word_of_nat (segment_sizes s ! k)))"
proof (induction n)
  case 0
  then show ?case by simp
next
  case (Suc n)
  note fr = magic_fold_frame [of "[0..<n]" s]
  show ?case
  proof (cases "k = n")
    case True
    with Suc.prems fr show ?thesis
      by simp
  next
    case False
    with Suc.prems have "k < n" by simp
    with Suc.IH Suc.prems fr show ?thesis
      by (simp split: if_splits)
  qed
qed

subsection \<open>The initial masks\<close>

lemma prepare_mask_lt32: "c < 32 \<Longrightarrow> prepare_mask c = Returns (mask_word c)"
  by (simp add: prepare_mask_def mask_word_def)

lemma init_masks_Cons_ok:
  assumes "groups (cell_count st ! i) < 32"
    and "pool_ptr st ! i + groups (cell_count st ! i) < length (pool_buffer st)"
  shows "init_masks (i # is) st =
           init_masks is
             (st\<lparr>pool_buffer := (pool_buffer st)
                 [pool_ptr st ! i := mask_word (groups (cell_count st ! i)),
                  pool_ptr st ! i + groups (cell_count st ! i) := mask_word (cell_count st ! i mod 32)]\<rparr>)"
proof -
  have a: "prepare_mask (((cell_count st ! i + 31) div 32) mod 256) = Returns (mask_word (groups (cell_count st ! i)))"
    using assms(1) by (simp add: groups_def prepare_mask_lt32)
  have b: "prepare_mask (cell_count st ! i mod 32) = Returns (mask_word (cell_count st ! i mod 32))"
    by (simp add: prepare_mask_lt32)
  from assms(2) have c: "\<not> length (pool_buffer st) \<le> pool_ptr st ! i"
    "\<not> length (pool_buffer st) \<le> pool_ptr st ! i + (cell_count st ! i + 31) div 32"
    by (simp_all add: groups_def)
  show ?thesis
    by (simp add: Let_def a b c) (simp add: groups_def)
qed

lemma init_masks_result:
  assumes "distinct is"
    and "\<forall>k\<in>set is. 1 \<le> groups (cell_count st ! k) \<and> groups (cell_count st ! k) < 32
           \<and> pool_ptr st ! k + groups (cell_count st ! k) < length (pool_buffer st)"
    and "\<forall>j\<in>set is. \<forall>k\<in>set is. j \<noteq> k \<longrightarrow>
           pool_ptr st ! j + groups (cell_count st ! j) < pool_ptr st ! k
           \<or> pool_ptr st ! k + groups (cell_count st ! k) < pool_ptr st ! j"
  shows "\<exists>pb. init_masks is st = Returns (True, st\<lparr>pool_buffer := pb\<rparr>)
           \<and> length pb = length (pool_buffer st)
           \<and> (\<forall>k\<in>set is. pb ! (pool_ptr st ! k) = mask_word (groups (cell_count st ! k))
                 \<and> pb ! (pool_ptr st ! k + groups (cell_count st ! k)) = mask_word (cell_count st ! k mod 32))
           \<and> (\<forall>x. (\<forall>k\<in>set is. x \<noteq> pool_ptr st ! k \<and> x \<noteq> pool_ptr st ! k + groups (cell_count st ! k))
                 \<longrightarrow> pb ! x = pool_buffer st ! x)"
  using assms
proof (induction "is" arbitrary: st)
  case Nil
  show ?case
    by (rule exI [of _ "pool_buffer st"]) simp
next
  case (Cons i "is")
  let ?g = "groups (cell_count st ! i)"
  let ?pp = "pool_ptr st ! i"
  let ?pb1 = "(pool_buffer st)[?pp := mask_word ?g, ?pp + ?g := mask_word (cell_count st ! i mod 32)]"
  let ?st1 = "st\<lparr>pool_buffer := ?pb1\<rparr>"
  from Cons.prems(2) have gi: "1 \<le> ?g" "?g < 32" "?pp + ?g < length (pool_buffer st)"
    by auto
  have step: "init_masks (i # is) st = init_masks is ?st1"
    using init_masks_Cons_ok [OF gi(2) gi(3)] .
  from Cons.prems(1) have d: "distinct is" "i \<notin> set is" by auto
  have p2: "\<forall>k\<in>set is. 1 \<le> groups (cell_count ?st1 ! k) \<and> groups (cell_count ?st1 ! k) < 32
           \<and> pool_ptr ?st1 ! k + groups (cell_count ?st1 ! k) < length (pool_buffer ?st1)"
    using Cons.prems(2) by simp
  have p3: "\<forall>j\<in>set is. \<forall>k\<in>set is. j \<noteq> k \<longrightarrow>
           pool_ptr ?st1 ! j + groups (cell_count ?st1 ! j) < pool_ptr ?st1 ! k
           \<or> pool_ptr ?st1 ! k + groups (cell_count ?st1 ! k) < pool_ptr ?st1 ! j"
    using Cons.prems(3) by simp
  from Cons.IH [OF d(1) p2 p3] obtain pb where
    r: "init_masks is ?st1 = Returns (True, ?st1\<lparr>pool_buffer := pb\<rparr>)"
    and len: "length pb = length (pool_buffer ?st1)"
    and vals: "\<forall>k\<in>set is. pb ! (pool_ptr st ! k) = mask_word (groups (cell_count st ! k))
                 \<and> pb ! (pool_ptr st ! k + groups (cell_count st ! k)) = mask_word (cell_count st ! k mod 32)"
    and rest: "\<forall>x. (\<forall>k\<in>set is. x \<noteq> pool_ptr st ! k \<and> x \<noteq> pool_ptr st ! k + groups (cell_count st ! k))
                 \<longrightarrow> pb ! x = ?pb1 ! x"
    by auto
  have sep: "\<forall>k\<in>set is. ?pp + ?g < pool_ptr st ! k \<or> pool_ptr st ! k + groups (cell_count st ! k) < ?pp"
    using Cons.prems(3) d(2) by auto
  have i0: "pb ! ?pp = mask_word ?g"
  proof -
    have "\<forall>k\<in>set is. ?pp \<noteq> pool_ptr st ! k \<and> ?pp \<noteq> pool_ptr st ! k + groups (cell_count st ! k)"
      using sep by fastforce
    with rest have "pb ! ?pp = ?pb1 ! ?pp"
      by blast
    also have "\<dots> = mask_word ?g"
      using gi by (simp add: nth_list_update)
    finally show ?thesis .
  qed
  have i1: "pb ! (?pp + ?g) = mask_word (cell_count st ! i mod 32)"
  proof -
    have "\<forall>k\<in>set is. ?pp + ?g \<noteq> pool_ptr st ! k \<and> ?pp + ?g \<noteq> pool_ptr st ! k + groups (cell_count st ! k)"
      using sep by fastforce
    with rest have "pb ! (?pp + ?g) = ?pb1 ! (?pp + ?g)"
      by blast
    also have "\<dots> = mask_word (cell_count st ! i mod 32)"
      using gi by (simp add: nth_list_update)
    finally show ?thesis .
  qed
  have other: "\<forall>x. (\<forall>k\<in>set (i # is). x \<noteq> pool_ptr st ! k \<and> x \<noteq> pool_ptr st ! k + groups (cell_count st ! k))
                 \<longrightarrow> pb ! x = pool_buffer st ! x"
  proof (intro allI impI)
    fix x
    assume a: "\<forall>k\<in>set (i # is). x \<noteq> pool_ptr st ! k \<and> x \<noteq> pool_ptr st ! k + groups (cell_count st ! k)"
    then have "pb ! x = ?pb1 ! x" using rest by simp
    also from a have "\<dots> = pool_buffer st ! x" by (simp add: nth_list_update)
    finally show "pb ! x = pool_buffer st ! x" .
  qed
  show ?case
    by (rule exI [of _ pb]) (use step r len vals i0 i1 other in simp)
qed

lemma new_array_True_iff:
  "new_array oom a fill st = Returns (True, st') \<longleftrightarrow>
     \<not> oom a \<and> st' = (fill st)\<lparr>ptrs := (ptrs st)(a := Live)\<rparr>"
  by (auto simp: new_array_def)

lemma alloc_tables_True_D:
  assumes "alloc_tables oom count st = Returns (True, s)"
  shows "tables_fresh count st (s\<lparr>initialized := True, segment_count := count, buffer_size := 0\<rparr>)"
    and "\<forall>a\<in>{SegmentSizes, CellCount, MagicNumber, SegmentShift, SegmentPtr, PoolPtr}. \<not> oom a"
  using assms unfolding alloc_tables_def and_then_True_iff new_array_True_iff tables_fresh_def
  by auto

lemma alloc_buffers_True_D:
  assumes "alloc_buffers oom (s2\<lparr>max_segment_size := segment_sizes s2 ! (count - 1)\<rparr>) = Returns (True, s)"
  shows "buffers_fresh count s2 s"
    and "\<forall>a\<in>{Buffer, PoolBuffer, SegmentLookup}. \<not> oom a"
  using assms unfolding alloc_buffers_def and_then_True_iff new_array_True_iff buffers_fresh_def
  by (auto simp: SEGMENT_STEP_def)

lemma begin_True_D:
  assumes "mempool_begin oom st0 segs count = Returns (True, st)"
  shows "\<not> initialized st0 \<and> count \<le> 64 \<and> 0 < count \<and> (\<forall>a. \<not> oom a) \<and>
    (\<exists>s1 s2 s3. tables_fresh count st0 s1
       \<and> place_segments segs count [0..<count] 0 s1 = Returns (True, s2)
       \<and> buffers_fresh count s2 s3
       \<and> and_then (init_magic count (init_pointers count (init_lookup s3))) (init_masks [0..<count])
           = Returns (True, st))"
proof -
  from assms have ni: "\<not> initialized st0" and c64: "count \<le> 64"
    by (auto simp: mempool_begin_def split: if_splits)
  with assms have chain: "and_then (alloc_tables oom count st0) (\<lambda>st.
        and_then (place_segments segs count [0..<count] 0
                    (st\<lparr>initialized := True, segment_count := count, buffer_size := 0\<rparr>)) (\<lambda>st.
        if count = 0 then Undefined
        else
          and_then (alloc_buffers oom (st\<lparr>max_segment_size := segment_sizes st ! (count - 1)\<rparr>)) (\<lambda>st.
          and_then (init_magic count (init_pointers count (init_lookup st)))
            (init_masks [0..<count])))) = Returns (True, st)"
    by (simp add: mempool_begin_def)
  from chain [unfolded and_then_True_iff] obtain t s2 where
    at: "alloc_tables oom count st0 = Returns (True, t)"
    and pl: "place_segments segs count [0..<count] 0
               (t\<lparr>initialized := True, segment_count := count, buffer_size := 0\<rparr>) = Returns (True, s2)"
    and rest: "(if count = 0 then Undefined
        else
          and_then (alloc_buffers oom (s2\<lparr>max_segment_size := segment_sizes s2 ! (count - 1)\<rparr>)) (\<lambda>st.
          and_then (init_magic count (init_pointers count (init_lookup st)))
            (init_masks [0..<count]))) = Returns (True, st)"
    by blast
  from rest have c0: "0 < count" by (auto split: if_splits)
  with rest have chain2: "and_then (alloc_buffers oom (s2\<lparr>max_segment_size := segment_sizes s2 ! (count - 1)\<rparr>)) (\<lambda>st.
          and_then (init_magic count (init_pointers count (init_lookup st)))
            (init_masks [0..<count])) = Returns (True, st)"
    by simp
  from chain2 [unfolded and_then_True_iff] obtain u3 where
    ab: "alloc_buffers oom (s2\<lparr>max_segment_size := segment_sizes s2 ! (count - 1)\<rparr>) = Returns (True, u3)"
    and fin: "and_then (init_magic count (init_pointers count (init_lookup u3)))
            (init_masks [0..<count]) = Returns (True, st)"
    unfolding and_then_True_iff by blast
  have oom: "\<forall>a. \<not> oom a"
  proof
    fix a
    from alloc_tables_True_D(2) [OF at] alloc_buffers_True_D(2) [OF ab] show "\<not> oom a"
      by (cases a) simp_all
  qed
  from ni c64 c0 oom alloc_tables_True_D(1) [OF at] pl alloc_buffers_True_D(1) [OF ab] fin
  show ?thesis by blast
qed

lemma init_masks_frame:
  "init_masks is st = Returns (True, st') \<Longrightarrow>
     \<exists>pb. st' = st\<lparr>pool_buffer := pb\<rparr> \<and> length pb = length (pool_buffer st)"
proof (induction "is" arbitrary: st)
  case Nil
  then have "st' = st\<lparr>pool_buffer := pool_buffer st\<rparr>" by simp
  then show ?case by blast
next
  case (Cons i "is")
  let ?g = "(cell_count st ! i + 31) div 32"
  let ?pp = "pool_ptr st ! i"
  from Cons.prems obtain m0 m1 where
    r: "init_masks is (st\<lparr>pool_buffer := (pool_buffer st)[?pp := m0, ?pp + ?g := m1]\<rparr>) = Returns (True, st')"
    by (auto simp: Let_def split: outcome.splits if_splits)
  from Cons.IH [OF r] show ?case by auto
qed

lemma upt_0_Cons: "0 < n \<Longrightarrow> [0..<n] = 0 # [1..<n]"
  by (simp add: upt_rec)

text \<open>Everything a successful \<open>begin\<close> leaves behind, field by field.\<close>

lemma begin_True_fields:
  assumes "mempool_begin oom st0 segs count = Returns (True, st)"
  obtains s1 s2 s4 where
    "0 < count" "count \<le> 64" "count \<le> length segs" "sz_of segs 0 \<noteq> 0"
    "tables_fresh count st0 s1"
    "place_segments segs count [0..<count] 0 s1 = Returns (True, s2)"
    "init_masks [0..<count] s4 = Returns (True, st)"
    "pool_buffer s4 = replicate (pool_size s2) 0"
    "initialized st" "segment_count st = count"
    "segment_sizes st = segment_sizes s2" "cell_count st = cell_count s2"
    "length (segment_sizes st) = count" "length (cell_count st) = count"
    "length (segment_ptr st) = count" "length (pool_ptr st) = count"
    "length (magic_number st) = count" "length (segment_shift st) = count"
    "buffer_size st = buffer_size s2" "pool_size st = pool_size s2"
    "length (pool_buffer st) = pool_size s2"
    "max_segment_size st = segment_sizes st ! (count - 1)"
    "length (segment_lookup st) = max_segment_size st div 4"
    "\<forall>i<length (segment_lookup st). segment_lookup st ! i = lookup_segment st ((i + 1) * 4)"
    "\<forall>k<count. segment_ptr st ! k = seg_base (segment_sizes st) (cell_count st) k"
    "\<forall>k<count. pool_ptr st ! k = pool_base (cell_count st) k"
    "\<forall>k<count. if not_pow2 (segment_sizes st ! k)
        then magic_number st ! k = (65536 + segment_sizes st ! k div 4 - 1) div (segment_sizes st ! k div 4)
        else segment_shift st ! k = ctz (word_of_nat (segment_sizes st ! k))"
    "segment_sizes s4 = segment_sizes st" "cell_count s4 = cell_count st" "pool_ptr s4 = pool_ptr st"
proof -
  from begin_True_D [OF assms] obtain s1 s2 s3 where
    c: "0 < count" "count \<le> 64"
    and tf: "tables_fresh count st0 s1"
    and pl: "place_segments segs count [0..<count] 0 s1 = Returns (True, s2)"
    and bf: "buffers_fresh count s2 s3"
    and fin: "and_then (init_magic count (init_pointers count (init_lookup s3))) (init_masks [0..<count])
           = Returns (True, st)"
    by blast
  let ?s3' = "init_pointers count (init_lookup s3)"
  let ?s4 = "fold magic_step [0..<count] ?s3'"
  from fin have im: "init_masks [0..<count] ?s4 = Returns (True, st)"
    by (auto simp: and_then_True_iff init_magic_eq split: if_splits)
  from init_masks_frame [OF im] obtain pb where
    st: "st = ?s4\<lparr>pool_buffer := pb\<rparr>" and pbl: "length pb = length (pool_buffer ?s4)"
    by blast
  note mf = magic_fold_frame [of "[0..<count]" ?s3']
  note pf = init_pointers_frame [of count "init_lookup s3"]
  note lf = init_lookup_frame [of s3]
  note plf = place_segments_frame [OF pl]
  from pl c(1) have first: "count \<le> length segs" "sz_of segs 0 \<noteq> 0"
    using place_segments_Cons_True(2,3) [of segs count 0 "[1..<count]" 0 s1 s2]
    by (simp_all add: upt_0_Cons)
  have l1: "length (segment_sizes s1) = count" "length (cell_count s1) = count"
    "length (segment_ptr s1) = count" "length (pool_ptr s1) = count"
    "length (magic_number s1) = count" "length (segment_shift s1) = count"
    "initialized s1" "segment_count s1 = count"
    using tf unfolding tables_fresh_def by simp_all
  have f1: "initialized st" "segment_count st = count"
    "segment_sizes st = segment_sizes s2" "cell_count st = cell_count s2"
    "buffer_size st = buffer_size s2" "pool_size st = pool_size s2"
    "max_segment_size st = segment_sizes s2 ! (count - 1)"
    using bf unfolding buffers_fresh_def by (simp_all add: st mf pf lf plf l1)
  have f2: "length (segment_sizes st) = count" "length (cell_count st) = count"
    "length (segment_ptr st) = count" "length (pool_ptr st) = count"
    "length (magic_number st) = count" "length (segment_shift st) = count"
    "length (pool_buffer st) = pool_size s2"
    using bf unfolding buffers_fresh_def by (simp_all add: st mf pf lf plf l1 pbl)
  have f3: "length (segment_lookup st) = max_segment_size st div 4"
    using bf unfolding buffers_fresh_def by (simp add: st mf pf lf f1)
  have lc: "lookup_segment st = lookup_segment s3"
    using bf unfolding buffers_fresh_def by (intro lookup_segment_cong) (simp_all add: plf l1 f1)
  have sl: "segment_lookup st = segment_lookup (init_lookup s3)"
    by (simp add: st mf pf)
  have f4: "\<forall>i<length (segment_lookup st). segment_lookup st ! i = lookup_segment st ((i + 1) * 4)"
  proof (intro allI impI)
    fix i
    assume "i < length (segment_lookup st)"
    with f3 bf have "i < segment_lookup_count s3" "i < length (segment_lookup s3)"
      unfolding buffers_fresh_def by (simp_all add: f1)
    from init_lookup_nth [OF this] sl
    show "segment_lookup st ! i = lookup_segment st ((i + 1) * 4)"
      by (simp add: lc)
  qed
  have s3len: "length (segment_ptr (init_lookup s3)) = count" "length (pool_ptr (init_lookup s3)) = count"
    using bf unfolding buffers_fresh_def by (simp_all add: lf plf l1)
  have s3v: "segment_sizes (init_lookup s3) = segment_sizes st" "cell_count (init_lookup s3) = cell_count st"
    using bf unfolding buffers_fresh_def by (simp_all add: lf f1)
  have f5: "\<forall>k<count. segment_ptr st ! k = seg_base (segment_sizes st) (cell_count st) k"
    "\<forall>k<count. pool_ptr st ! k = pool_base (cell_count st) k"
    using init_pointers_values [OF c(1) s3len] by (simp_all add: st mf s3v)
  have m3: "length (magic_number ?s3') = count" "length (segment_shift ?s3') = count"
    "segment_sizes ?s3' = segment_sizes st"
    using bf unfolding buffers_fresh_def by (simp_all add: pf lf plf l1 f1)
  have f6: "\<forall>k<count. if not_pow2 (segment_sizes st ! k)
        then magic_number st ! k = (65536 + segment_sizes st ! k div 4 - 1) div (segment_sizes st ! k div 4)
        else segment_shift st ! k = ctz (word_of_nat (segment_sizes st ! k))"
  proof (intro allI impI)
    fix k
    assume "k < count"
    from magic_fold_values [of count ?s3' k] this m3
    show "if not_pow2 (segment_sizes st ! k)
        then magic_number st ! k = (65536 + segment_sizes st ! k div 4 - 1) div (segment_sizes st ! k div 4)
        else segment_shift st ! k = ctz (word_of_nat (segment_sizes st ! k))"
      by (simp add: st)
  qed
  have f7: "pool_buffer ?s4 = replicate (pool_size s2) 0"
    "segment_sizes ?s4 = segment_sizes st" "cell_count ?s4 = cell_count st" "pool_ptr ?s4 = pool_ptr st"
    using bf unfolding buffers_fresh_def by (simp_all add: st mf pf lf)
  show thesis
    using that [OF c first tf pl im f7(1) f1(1,2,3,4) f2(1-6) f1(5,6) f2(7) _ f3 f4 f5 f6 f7(2,3,4)] f1(7) f1(3)
    by simp
qed

lemma begin_values:
  assumes "mempool_begin oom st0 segs count = Returns (True, st)" "k < count"
  shows "4 \<le> segment_sizes st ! k \<and> segment_sizes st ! k \<le> 64 \<and> 4 dvd segment_sizes st ! k
     \<and> (\<exists>ix < count. cell_count st ! k = unat (seg_count (segs ! ix))
          \<and> segment_sizes st ! k = sz_of segs ix * 4)"
proof -
  from assms(1) obtain s1 s2 where c: "0 < count" "sz_of segs 0 \<noteq> 0"
    and tf: "tables_fresh count st0 s1"
    and pl: "place_segments segs count [0..<count] 0 s1 = Returns (True, s2)"
    and eq: "segment_sizes st = segment_sizes s2" "cell_count st = cell_count s2"
    by (rule begin_True_fields)
  from tf have b: "\<forall>i\<in>set [0..<count]. i < length (segment_sizes s1) \<and> i < length (cell_count s1)"
    unfolding tables_fresh_def by simp
  from place_segments_values [OF pl _ c(2) b, of k] assms(2)
  obtain ix where v: "4 \<le> segment_sizes s2 ! k" "segment_sizes s2 ! k \<le> 64" "4 dvd segment_sizes s2 ! k"
    "ix = 0 \<or> ix < count" "cell_count s2 ! k = unat (seg_count (segs ! ix))"
    "segment_sizes s2 ! k = sz_of segs ix * 4"
    by auto
  from v(4) c(1) have "ix < count" by auto
  with v show ?thesis
    unfolding eq by blast
qed

theorem begin_tables_ok:
  assumes "mempool_begin oom st0 segs count = Returns (True, st)"
  shows "tables_ok st"
proof -
  from assms obtain s1 s2 s4 where f: "0 < count" "count \<le> 64"
    "initialized st" "segment_count st = count" "length (segment_sizes st) = count"
    "max_segment_size st = segment_sizes st ! (count - 1)"
    "length (segment_lookup st) = max_segment_size st div 4"
    "\<forall>i < length (segment_lookup st). segment_lookup st ! i = lookup_segment st ((i + 1) * 4)"
    by (rule begin_True_fields)
  from begin_values [OF assms] f show ?thesis
    unfolding tables_ok_def by simp
qed

subsection \<open>alloc and release only touch the bitmap\<close>

lemma take_cell_frame:
  "take_cell st sg pi = Returns (p, st') \<Longrightarrow>
     st' = st\<lparr>pool_buffer := pool_buffer st'\<rparr> \<and> length (pool_buffer st') = length (pool_buffer st)"
  unfolding take_cell_def Let_def
  by (auto split: if_splits)

lemma alloc_in_segment_frame:
  "alloc_in_segment st sg = Done (Returns (p, st')) \<Longrightarrow>
     st' = st\<lparr>pool_buffer := pool_buffer st'\<rparr> \<and> length (pool_buffer st') = length (pool_buffer st)"
  unfolding alloc_in_segment_def Let_def
  by (auto split: if_splits dest: take_cell_frame)

lemma alloc_step_frame:
  "alloc_step st sz = Done (Returns (p, st')) \<Longrightarrow>
     st' = st\<lparr>pool_buffer := pool_buffer st'\<rparr> \<and> length (pool_buffer st') = length (pool_buffer st)"
  unfolding alloc_step_def
  by (auto split: if_splits dest: alloc_in_segment_frame)

lemma release_cell_frame:
  "release_cell st sg p = Returns st' \<Longrightarrow>
     st' = st\<lparr>pool_buffer := pool_buffer st'\<rparr> \<and> length (pool_buffer st') = length (pool_buffer st)"
  unfolding release_cell_def Let_def
  by (auto split: if_splits)

lemma alloc_Some_step:
  assumes "alloc st sz = Some r"
  shows "\<exists>sz'. alloc_step st sz' = Done r"
  by (rule alloc.raw_induct [rotated 1, OF assms]) (auto split: alloc_step.splits)

lemma alloc_frame:
  "alloc st sz = Some (Returns (p, st')) \<Longrightarrow>
     st' = st\<lparr>pool_buffer := pool_buffer st'\<rparr> \<and> length (pool_buffer st') = length (pool_buffer st)"
  using alloc_Some_step alloc_step_frame by blast

lemma release_frame:
  assumes "release st p = Some (Returns st')"
  shows "st' = st\<lparr>pool_buffer := pool_buffer st'\<rparr> \<and> length (pool_buffer st') = length (pool_buffer st)"
  using assms unfolding release_def
  by (auto split: option.splits outcome.splits if_splits dest: release_cell_frame)

lemma tables_ok_pool_buffer [simp]:
  "tables_ok (st\<lparr>pool_buffer := pb\<rparr>) = tables_ok st"
proof -
  have "lookup_segment (st\<lparr>pool_buffer := pb\<rparr>) = lookup_segment st"
    by (rule lookup_segment_cong) simp_all
  then show ?thesis by (simp add: tables_ok_def)
qed

lemma reachable_tables_ok: "reachable st \<Longrightarrow> tables_ok st"
proof (induction rule: reachable.induct)
  case (init oom st0 segs count st)
  then show ?case by (rule begin_tables_ok)
next
  case (alloc st sz p st')
  from alloc_frame [OF alloc.hyps(2)] alloc.IH show ?case by (metis tables_ok_pool_buffer)
next
  case (release st p st')
  from release_frame [OF release.hyps(2)] release.IH show ?case by (metis tables_ok_pool_buffer)
qed

subsection \<open>The lookup index\<close>

lemma lookup_index_bounds:
  assumes "tables_ok st" "1 \<le> sz" "sz \<le> max_segment_size st"
  shows "0 \<le> lookup_index sz" "lookup_index sz < int (length (segment_lookup st))"
proof -
  from assms(1) have "4 dvd max_segment_size st" "length (segment_lookup st) = max_segment_size st div 4"
    unfolding tables_ok_def by auto
  then obtain m where m: "max_segment_size st = 4 * m" "length (segment_lookup st) = m"
    by (auto elim: dvdE)
  from assms(2) have "1 \<le> (sz + 3) div 4" by arith
  then show "0 \<le> lookup_index sz"
    by (simp add: lookup_index_def SEGMENT_STEP_def SEGMENT_LOG2_def)
  from assms(2,3) m have "(sz + 3) div 4 \<le> m" "1 \<le> (sz + 3) div 4" by arith+
  with m show "lookup_index sz < int (length (segment_lookup st))"
    by (simp add: lookup_index_def SEGMENT_STEP_def SEGMENT_LOG2_def)
qed

lemma lookup_index_0: "lookup_index 0 = - 1"
  by (simp add: lookup_index_def SEGMENT_STEP_def SEGMENT_LOG2_def)

lemma alloc_step_0: "alloc_step st 0 = Done Undefined"
  by (simp add: alloc_step_def lookup_index_0)

lemma alloc_0: "alloc st 0 = Some Undefined"
  by (subst alloc.simps) (simp add: alloc_step_0)

subsection \<open>Escalation climbs the segment table\<close>

lemma find_first:
  "k < n \<Longrightarrow> P k \<Longrightarrow> \<forall>j < k. \<not> P j \<Longrightarrow> List.find P [0..<n] = Some k"
  by (auto simp: find_Some_iff intro!: exI [of _ k])

lemma lookup_segment_sorted:
  assumes "tables_ok st" "sorted_wrt (<) (segment_sizes st)" "k < segment_count st"
  shows "lookup_segment st (segment_sizes st ! k) = int k"
proof -
  from assms(1) have len: "length (segment_sizes st) = segment_count st"
    by (simp add: tables_ok_def)
  have "\<forall>j < k. \<not> segment_sizes st ! k \<le> segment_sizes st ! j"
    using assms(2,3) len by (auto simp: sorted_wrt_iff_nth_less not_le)
  from find_first [of k "segment_count st" "\<lambda>i. segment_sizes st ! k \<le> segment_sizes st ! i", OF assms(3) _ this]
  show ?thesis by (simp add: lookup_segment_def)
qed

lemma resolve_sorted:
  assumes "tables_ok st" "sorted_wrt (<) (segment_sizes st)" "k < segment_count st"
  shows "segment_sizes st ! k \<le> max_segment_size st"
    and "0 \<le> lookup_index (segment_sizes st ! k)"
    and "lookup_index (segment_sizes st ! k) < int (length (segment_lookup st))"
    and "resolve_segment st (segment_sizes st ! k) = k"
proof -
  from assms(1) have len: "length (segment_sizes st) = segment_count st"
    and mx: "max_segment_size st = segment_sizes st ! (segment_count st - 1)"
    and k4: "4 \<le> segment_sizes st ! k" "4 dvd segment_sizes st ! k"
    and c64: "segment_count st \<le> 64"
    and lk: "\<forall>i < length (segment_lookup st). segment_lookup st ! i = lookup_segment st ((i + 1) * 4)"
    using assms(3) by (simp_all add: tables_ok_def)
  show le: "segment_sizes st ! k \<le> max_segment_size st"
  proof (cases "k = segment_count st - 1")
    case True
    then show ?thesis by (simp add: mx)
  next
    case False
    with assms(3) have "k < segment_count st - 1" by simp
    with assms(2,3) len have "segment_sizes st ! k < segment_sizes st ! (segment_count st - 1)"
      by (simp add: sorted_wrt_iff_nth_less)
    then show ?thesis by (simp add: mx)
  qed
  from k4 have one: "1 \<le> segment_sizes st ! k" by simp
  from lookup_index_bounds [OF assms(1) one le]
  show b: "0 \<le> lookup_index (segment_sizes st ! k)"
    "lookup_index (segment_sizes st ! k) < int (length (segment_lookup st))"
    by simp_all
  from k4 obtain m where m: "segment_sizes st ! k = 4 * m" "1 \<le> m"
    by (auto elim!: dvdE)
  then have li: "lookup_index (segment_sizes st ! k) = int m - 1"
    by (simp add: lookup_index_def SEGMENT_STEP_def SEGMENT_LOG2_def)
  with b m have "nat (lookup_index (segment_sizes st ! k)) < length (segment_lookup st)"
    "(nat (lookup_index (segment_sizes st ! k)) + 1) * 4 = segment_sizes st ! k"
    by simp_all
  with lk have "segment_lookup st ! nat (lookup_index (segment_sizes st ! k))
      = lookup_segment st (segment_sizes st ! k)"
    by auto
  also have "\<dots> = int k" by (rule lookup_segment_sorted [OF assms])
  finally show "resolve_segment st (segment_sizes st ! k) = k"
    using assms(3) c64 by (simp add: resolve_segment_def)
qed

lemma alloc_in_segment_cases:
  "(\<exists>r. alloc_in_segment st sg = Done r)
   \<or> (Suc sg < segment_count st \<and> alloc_in_segment st sg = Escalate (segment_sizes st ! Suc sg))"
  unfolding alloc_in_segment_def Let_def by auto

lemma alloc_step_cases:
  "(\<exists>r. alloc_step st sz = Done r)
   \<or> (\<exists>sg. Suc sg < segment_count st \<and> alloc_step st sz = Escalate (segment_sizes st ! Suc sg))"
  unfolding alloc_step_def using alloc_in_segment_cases by auto

lemma alloc_step_sorted_cases:
  assumes "tables_ok st" "sorted_wrt (<) (segment_sizes st)" "k < segment_count st"
  shows "(\<exists>r. alloc_step st (segment_sizes st ! k) = Done r)
   \<or> (Suc k < segment_count st \<and> alloc_step st (segment_sizes st ! k) = Escalate (segment_sizes st ! Suc k))"
proof -
  from resolve_sorted [OF assms] assms(3)
  have "alloc_step st (segment_sizes st ! k) = alloc_in_segment st k"
    by (simp add: alloc_step_def)
  with alloc_in_segment_cases [of st k] show ?thesis by simp
qed

lemma alloc_bounded_mono:
  "alloc_bounded m st sz = Some r \<Longrightarrow> m \<le> m' \<Longrightarrow> alloc_bounded m' st sz = Some r"
proof (induction m arbitrary: m' sz)
  case 0
  then show ?case by simp
next
  case (Suc m)
  then obtain m'' where m': "m' = Suc m''" "m \<le> m''"
    by (cases m') auto
  from Suc.prems(1) Suc.IH [OF _ m'(2)] show ?case
    unfolding m' by (cases "alloc_step st sz") auto
qed

lemma alloc_bounded_alloc:
  "alloc_bounded m st sz = Some r \<Longrightarrow> alloc st sz = Some r"
proof (induction m arbitrary: sz)
  case 0
  then show ?case by simp
next
  case (Suc m)
  then show ?case
    by (subst alloc.simps) (cases "alloc_step st sz"; auto)
qed

lemma alloc_bounded_sorted:
  assumes "tables_ok st" "sorted_wrt (<) (segment_sizes st)"
  shows "k < segment_count st \<Longrightarrow> m = segment_count st - k \<Longrightarrow>
         \<exists>r. alloc_bounded m st (segment_sizes st ! k) = Some r"
proof (induction m arbitrary: k)
  case 0
  then show ?case by simp
next
  case (Suc m)
  from alloc_step_sorted_cases [OF assms Suc.prems(1)] show ?case
  proof
    assume "\<exists>r. alloc_step st (segment_sizes st ! k) = Done r"
    then show ?thesis by auto
  next
    assume e: "Suc k < segment_count st
       \<and> alloc_step st (segment_sizes st ! k) = Escalate (segment_sizes st ! Suc k)"
    with Suc.prems have "m = segment_count st - Suc k" by simp
    from Suc.IH [OF _ this] e show ?thesis by auto
  qed
qed

lemma alloc_terminates:
  assumes "tables_ok st" "sorted_wrt (<) (segment_sizes st)"
  shows "\<exists>r. alloc_bounded (segment_count st) st sz = Some r \<and> alloc st sz = Some r"
proof -
  from assms(1) obtain n where n: "segment_count st = Suc n"
    by (cases "segment_count st") (auto simp: tables_ok_def)
  from alloc_step_cases [of st sz]
  have "\<exists>r. alloc_bounded (segment_count st) st sz = Some r"
  proof
    assume "\<exists>r. alloc_step st sz = Done r"
    then show ?thesis by (auto simp: n)
  next
    assume "\<exists>sg. Suc sg < segment_count st \<and> alloc_step st sz = Escalate (segment_sizes st ! Suc sg)"
    then obtain sg where sg: "Suc sg < segment_count st"
      "alloc_step st sz = Escalate (segment_sizes st ! Suc sg)"
      by blast
    from alloc_bounded_sorted [OF assms sg(1) refl] obtain r where
      "alloc_bounded (segment_count st - Suc sg) st (segment_sizes st ! Suc sg) = Some r"
      by blast
    from alloc_bounded_mono [OF this, of n] n have "alloc_bounded n st (segment_sizes st ! Suc sg) = Some r"
      by simp
    with sg(2) show ?thesis by (auto simp: n)
  qed
  with alloc_bounded_alloc show ?thesis by blast
qed

subsection \<open>When the placing loop fails, and when it cannot\<close>

lemma delete_arrays_defined:
  "distinct as \<Longrightarrow> \<forall>a\<in>set as. ptrs st a \<noteq> Freed \<Longrightarrow> \<exists>st'. delete_arrays as st = Returns st'"
proof (induction as arbitrary: st)
  case Nil
  then show ?case by simp
next
  case (Cons a as)
  from Cons.prems have na: "a \<notin> set as" "ptrs st a \<noteq> Freed" "\<forall>b\<in>set as. ptrs st b \<noteq> Freed"
    by auto
  have "\<exists>s. delete_array a st = Returns s \<and> (\<forall>b\<in>set as. ptrs s b \<noteq> Freed)"
  proof (cases "ptrs st a")
    case Nullptr
    with na show ?thesis by (simp add: delete_array_def)
  next
    case Live
    have "\<forall>b\<in>set as. ptrs (st\<lparr>ptrs := (ptrs st)(a := Freed)\<rparr>) b \<noteq> Freed"
      using na by auto
    with Live show ?thesis by (simp add: delete_array_def)
  next
    case Freed
    with na show ?thesis by simp
  qed
  then obtain s where s: "delete_array a st = Returns s" "\<forall>b\<in>set as. ptrs s b \<noteq> Freed"
    by blast
  from Cons.IH [OF _ s(2)] Cons.prems(1) s(1) show ?case by simp
qed

text \<open>\<open>no_freed\<close> is about the pointers only; the loop never touches them.\<close>

lemma fail_defined: "no_freed st \<Longrightarrow> \<exists>st'. fail st = Returns (False, st')"
  using delete_arrays_defined [of "[SegmentSizes, CellCount, MagicNumber, SegmentShift, Buffer, PoolBuffer,
        SegmentLookup, SegmentPtr, PoolPtr]" st] by (auto simp: fail_def clean_def no_freed_def)

lemma no_freed_place_one [simp]: "no_freed (place_one segs i ix st) = no_freed st"
  by (simp add: no_freed_def place_one_def)

lemma no_freed_sizes_update [simp]: "no_freed (st\<lparr>segment_sizes := x\<rparr>) = no_freed st"
  by (simp add: no_freed_def)

lemma place_segments_defined:
  "count \<le> length segs \<Longrightarrow> \<forall>i\<in>set is. i < count \<Longrightarrow> no_freed st \<Longrightarrow>
   place_segments segs count is cur st \<noteq> Undefined"
proof (induction "is" arbitrary: cur st)
  case Nil
  then show ?case by simp
next
  case (Cons i "is")
  from Cons.prems have i: "i < length segs" "\<not> length segs < count" by auto
  from Cons.prems(3) fail_defined have f: "\<And>x. fail (st\<lparr>segment_sizes := x\<rparr>) \<noteq> Undefined"
    "fail st \<noteq> Undefined"
    by (metis no_freed_sizes_update outcome.distinct)+
  from Cons.IH [OF Cons.prems(1)] Cons.prems(2,3)
  have "place_segments segs count is (sz_of segs (get_next_segment segs count cur))
             (place_one segs i (get_next_segment segs count cur) st) \<noteq> Undefined"
    by simp
  with i f show ?case
    unfolding place_segments_Cons by simp
qed

lemma place_segments_True_nonzero:
  "place_segments segs count is cur st = Returns (True, st') \<Longrightarrow> i \<in> set is \<Longrightarrow> sz_of segs i \<noteq> 0"
proof (induction "is" arbitrary: cur st)
  case Nil
  then show ?case by simp
next
  case (Cons j "is")
  note t = place_segments_Cons_True [OF Cons.prems(1)]
  from Cons.prems(2) t(2) Cons.IH [OF t(5)] show ?case by auto
qed

lemma above_finite [simp]: "finite (above segs count cur)"
proof -
  have "above segs count cur \<subseteq> (\<lambda>j. sz_of segs j) ` {..<count}"
    by (auto simp: above_def)
  then show ?thesis by (rule finite_subset) simp
qed

lemma above_card_0: "card (above segs count 0) \<le> count"
proof -
  have "above segs count 0 \<subseteq> (\<lambda>j. sz_of segs j) ` {..<count}"
    by (auto simp: above_def)
  then have "card (above segs count 0) \<le> card ((\<lambda>j. sz_of segs j) ` {..<count})"
    by (intro card_mono) simp_all
  also have "\<dots> \<le> card {..<count}" by (rule card_image_le) simp
  finally show ?thesis by simp
qed

lemma place_segments_True_small:
  "place_segments segs count is cur st = Returns (True, st') \<Longrightarrow>
   card (above segs count cur) \<le> length is \<Longrightarrow> s \<in> above segs count cur \<Longrightarrow> s * 4 \<le> 64"
proof (induction "is" arbitrary: cur st)
  case Nil
  then show ?case by simp
next
  case (Cons i "is")
  let ?ix = "get_next_segment segs count cur"
  let ?m = "sz_of segs ?ix"
  note t = place_segments_Cons_True [OF Cons.prems(1)]
  from Cons.prems(3) have ex: "\<exists>j < count. cur < sz_of segs j"
    by (auto simp: above_def)
  with gns_props [of segs count cur]
  have g: "?ix < count" "cur < ?m" "\<forall>j < count. cur < sz_of segs j \<longrightarrow> ?m \<le> sz_of segs j"
    by auto
  then have m_in: "?m \<in> above segs count cur"
    by (auto simp: above_def)
  have eq: "above segs count ?m = above segs count cur - {?m}"
  proof (intro set_eqI iffI)
    fix s
    assume "s \<in> above segs count ?m"
    then obtain j where "j < count" "s = sz_of segs j" "?m < s"
      by (auto simp: above_def)
    with g(2) show "s \<in> above segs count cur - {?m}"
      by (auto simp: above_def)
  next
    fix s
    assume "s \<in> above segs count cur - {?m}"
    then obtain j where j: "j < count" "s = sz_of segs j" "cur < s" "s \<noteq> ?m"
      by (auto simp: above_def)
    with g(3) have "?m \<le> s" by simp
    with j(4) have "?m < s" by simp
    with j show "s \<in> above segs count ?m"
      unfolding above_def by blast
  qed
  have "card (above segs count ?m) = card (above segs count cur) - 1"
    unfolding eq using m_in by simp
  moreover from m_in have "0 < card (above segs count cur)"
    by (auto simp: card_gt_0_iff)
  ultimately have c: "card (above segs count ?m) \<le> length is"
    using Cons.prems(2) by simp
  show ?case
  proof (cases "s = ?m")
    case True
    with t(4) show ?thesis by simp
  next
    case False
    with Cons.prems(3) have "s \<in> above segs count ?m"
      unfolding eq by simp
    from Cons.IH [OF t(5) c this] show ?thesis .
  qed
qed

lemma place_segments_True_valid:
  assumes "place_segments segs count [0..<count] 0 st = Returns (True, st')" "i < count"
  shows "1 \<le> sz_of segs i \<and> sz_of segs i * 4 \<le> 64"
proof -
  from place_segments_True_nonzero [OF assms(1), of i] assms(2)
  have nz: "sz_of segs i \<noteq> 0" by simp
  with assms(2) have "sz_of segs i \<in> above segs count 0"
    by (auto simp: above_def)
  from place_segments_True_small [OF assms(1) _ this] above_card_0 [of segs count] nz
  show ?thesis by simp
qed

lemma place_segments_succeeds:
  "count \<le> length segs \<Longrightarrow> \<forall>i\<in>set is. i < count \<Longrightarrow>
   \<forall>i < count. 1 \<le> sz_of segs i \<and> sz_of segs i * 4 \<le> 64 \<Longrightarrow>
   \<exists>st'. place_segments segs count is cur st = Returns (True, st')"
proof (induction "is" arbitrary: cur st)
  case Nil
  then show ?case by simp
next
  case (Cons i "is")
  from Cons.prems(2) have i: "i < count" by simp
  then have "get_next_segment segs count cur < count"
    by (intro gns_less) simp
  with Cons.prems(3) have g: "\<not> 64 < sz_of segs (get_next_segment segs count cur) * 4"
    by (simp add: not_less)
  from Cons.prems i have a: "\<not> length segs \<le> i" "sz_of segs i \<noteq> 0" "\<not> length segs < count"
    by auto
  from Cons.IH [OF Cons.prems(1) _ Cons.prems(3)] Cons.prems(2)
  show ?case
    unfolding place_segments_Cons using a g by simp
qed

subsection \<open>begin never runs into undefined behaviour before the tables are placed\<close>

lemma and_then_Undefined_iff:
  "and_then r k = Undefined \<longleftrightarrow> r = Undefined \<or> (\<exists>s. r = Returns (True, s) \<and> k s = Undefined)"
  by (cases r) (auto simp: and_then_def split: if_splits)

lemma new_array_not_Undefined:
  "no_freed st \<Longrightarrow> new_array oom a fill st \<noteq> Undefined"
  by (simp add: new_array_def)

lemma new_array_True_no_freed:
  "new_array oom a fill st = Returns (True, st') \<Longrightarrow> no_freed st \<Longrightarrow> no_freed st'"
  by (auto simp: new_array_True_iff no_freed_def)

lemma and_then_new_array_defined:
  assumes "no_freed st" "\<And>s. no_freed s \<Longrightarrow> k s \<noteq> Undefined"
  shows "and_then (new_array oom a fill st) k \<noteq> Undefined"
  using assms new_array_not_Undefined [OF assms(1), of oom a fill] new_array_True_no_freed [of oom a fill st]
  unfolding and_then_Undefined_iff by blast

lemma alloc_tables_defined: "no_freed st \<Longrightarrow> alloc_tables oom count st \<noteq> Undefined"
  unfolding alloc_tables_def
  by (intro and_then_new_array_defined new_array_not_Undefined)

lemma alloc_buffers_defined: "no_freed st \<Longrightarrow> alloc_buffers oom st \<noteq> Undefined"
  unfolding alloc_buffers_def
  by (intro and_then_new_array_defined new_array_not_Undefined) (simp_all add: no_freed_def)

lemma alloc_tables_no_freed: "alloc_tables oom count st = Returns (True, s) \<Longrightarrow> no_freed st \<Longrightarrow> no_freed s"
  unfolding alloc_tables_def and_then_True_iff
  by (auto dest!: new_array_True_no_freed)

lemma begin_Undefined_D:
  assumes "mempool_begin oom st0 segs count = Undefined" "no_freed st0" "count \<le> length segs"
  shows "count = 0 \<or> ((\<forall>a. \<not> oom a) \<and> (\<exists>s1 s2. place_segments segs count [0..<count] 0 s1 = Returns (True, s2)))"
proof (cases "count = 0")
  case True
  then show ?thesis by simp
next
  case False
  from assms(1) have ni: "\<not> initialized st0" and c64: "count \<le> 64"
    by (auto simp: mempool_begin_def split: if_splits)
  with assms(1) False have chain: "and_then (alloc_tables oom count st0) (\<lambda>st.
        and_then (place_segments segs count [0..<count] 0
                    (st\<lparr>initialized := True, segment_count := count, buffer_size := 0\<rparr>)) (\<lambda>st.
          and_then (alloc_buffers oom (st\<lparr>max_segment_size := segment_sizes st ! (count - 1)\<rparr>)) (\<lambda>st.
          and_then (init_magic count (init_pointers count (init_lookup st)))
            (init_masks [0..<count])))) = Undefined"
    by (simp add: mempool_begin_def)
  from chain [unfolded and_then_Undefined_iff [of "alloc_tables oom count st0"]] alloc_tables_defined [OF assms(2)]
  obtain t where at: "alloc_tables oom count st0 = Returns (True, t)"
    and c1: "and_then (place_segments segs count [0..<count] 0
                    (t\<lparr>initialized := True, segment_count := count, buffer_size := 0\<rparr>)) (\<lambda>st.
          and_then (alloc_buffers oom (st\<lparr>max_segment_size := segment_sizes st ! (count - 1)\<rparr>)) (\<lambda>st.
          and_then (init_magic count (init_pointers count (init_lookup st)))
            (init_masks [0..<count]))) = Undefined"
    by blast
  let ?s1 = "t\<lparr>initialized := True, segment_count := count, buffer_size := 0\<rparr>"
  from alloc_tables_no_freed [OF at assms(2)] have nf1: "no_freed ?s1"
    by (simp add: no_freed_def)
  from place_segments_defined [OF assms(3) _ nf1, of "[0..<count]" 0]
  have "place_segments segs count [0..<count] 0 ?s1 \<noteq> Undefined" by simp
  with c1 [unfolded and_then_Undefined_iff [of "place_segments segs count [0..<count] 0 ?s1"]]
  obtain s2 where pl: "place_segments segs count [0..<count] 0 ?s1 = Returns (True, s2)"
    and c2: "and_then (alloc_buffers oom (s2\<lparr>max_segment_size := segment_sizes s2 ! (count - 1)\<rparr>)) (\<lambda>st.
          and_then (init_magic count (init_pointers count (init_lookup st)))
            (init_masks [0..<count])) = Undefined"
    by blast
  from place_segments_frame [OF pl] nf1 have "no_freed (s2\<lparr>max_segment_size := segment_sizes s2 ! (count - 1)\<rparr>)"
    by (simp add: no_freed_def)
  from alloc_buffers_defined [OF this, of oom] c2
  obtain u where ab: "alloc_buffers oom (s2\<lparr>max_segment_size := segment_sizes s2 ! (count - 1)\<rparr>) = Returns (True, u)"
    unfolding and_then_Undefined_iff by blast
  have "\<forall>a. \<not> oom a"
  proof
    fix a
    from alloc_tables_True_D(2) [OF at] alloc_buffers_True_D(2) [OF ab] show "\<not> oom a"
      by (cases a) simp_all
  qed
  with pl show ?thesis by blast
qed

text \<open>With every allocation succeeding, \<open>begin\<close> is the placing loop followed by the
  initialisation loops.\<close>

lemma alloc_tables_ok:
  "\<forall>a. \<not> oom a \<Longrightarrow> \<exists>s. alloc_tables oom count st = Returns (True, s)"
  by (simp add: alloc_tables_def new_array_def)

lemma alloc_buffers_ok:
  "\<forall>a. \<not> oom a \<Longrightarrow> \<exists>s. alloc_buffers oom st = Returns (True, s)"
  by (simp add: alloc_buffers_def new_array_def)

subsection \<open>Where begin is left by an exception\<close>

lemma and_then_Bad_alloc_iff:
  "and_then r k = Bad_alloc \<longleftrightarrow> r = Bad_alloc \<or> (\<exists>s. r = Returns (True, s) \<and> k s = Bad_alloc)"
  by (cases r) (auto simp: and_then_def split: if_splits)

lemma delete_arrays_no_throw: "delete_arrays as st \<noteq> Bad_alloc"
  by (induction as arbitrary: st)
    (auto simp: delete_array_def split: ptr_status.splits outcome.splits)

lemma fail_no_throw [simp]: "fail st \<noteq> Bad_alloc"
proof -
  have "clean st \<noteq> Bad_alloc"
    unfolding clean_def by (rule delete_arrays_no_throw)
  then show ?thesis
    by (cases "clean st") (simp_all add: fail_def)
qed

lemma place_segments_no_throw: "place_segments segs count is cur st \<noteq> Bad_alloc"
  by (induction "is" arbitrary: cur st) (simp_all add: place_segments_Cons del: place_segments.simps(2))

lemma init_magic_no_throw: "init_magic count st \<noteq> Bad_alloc"
  by (simp add: init_magic_def)

lemma prepare_mask_no_throw: "prepare_mask c \<noteq> Bad_alloc"
  by (simp add: prepare_mask_def)

lemma init_masks_no_throw: "init_masks is st \<noteq> Bad_alloc"
  using prepare_mask_no_throw
  by (induction "is" arbitrary: st) (auto simp: Let_def split: outcome.splits)

text \<open>Only a failing \<open>new[]\<close> throws.\<close>

lemma begin_no_throw:
  assumes "\<forall>a. \<not> oom a"
  shows "mempool_begin oom st segs count \<noteq> Bad_alloc"
proof -
  have nt: "\<And>a fill s. new_array oom a fill s \<noteq> Bad_alloc"
    using assms by (simp add: new_array_def)
  show ?thesis
    unfolding mempool_begin_def alloc_tables_def alloc_buffers_def
    by (simp add: and_then_Bad_alloc_iff nt place_segments_no_throw init_magic_no_throw
        init_masks_no_throw)
qed

text \<open>
  A failing \<open>new[]\<close> of one of the six tables ends \<open>begin\<close> by the exception, whatever the
  descriptors are: \<open>begin\<close> does not return \<open>false\<close> then.
\<close>

lemma begin_throws:
  assumes "\<not> initialized st" "count \<le> 64"
    and "oom SegmentSizes \<or> oom CellCount \<or> oom MagicNumber \<or> oom SegmentShift \<or> oom SegmentPtr
         \<or> oom PoolPtr"
  shows "mempool_begin oom st segs count = Bad_alloc"
  using assms unfolding mempool_begin_def alloc_tables_def
  by (auto simp: new_array_def)

subsection \<open>The layout of the bitmap arena\<close>

lemma pool_base_mono: "j < k \<Longrightarrow> pool_base cc j + groups (cc ! j) < pool_base cc k"
proof (induction k)
  case 0
  then show ?case by simp
next
  case (Suc k)
  then show ?case by (cases "j = k") auto
qed

lemma pool_base_le: "j \<le> k \<Longrightarrow> pool_base cc j \<le> pool_base cc k"
  by (induction k) (auto simp: le_Suc_eq)

lemma pool_base_bound: "\<forall>j < n. groups (cc ! j) \<le> 31 \<Longrightarrow> pool_base cc n \<le> 32 * n"
  by (induction n) (auto simp: less_Suc_eq)

lemma seg_base_bound: "\<forall>j < n. szs ! j \<le> 64 \<and> cc ! j \<le> 992 \<Longrightarrow> seg_base szs cc n \<le> 63488 * n"
proof (induction n)
  case 0
  then show ?case by simp
next
  case (Suc n)
  then have "szs ! n * cc ! n \<le> 64 * 992"
    by (intro mult_le_mono) auto
  with Suc show ?case by (simp add: less_Suc_eq)
qed

lemma groups_le_31: "cc \<le> 992 \<Longrightarrow> groups cc \<le> 31"
  by (simp add: groups_def)

lemma groups_ge_1: "1 \<le> cc \<Longrightarrow> 1 \<le> groups cc"
  by (simp add: groups_def)

lemma init_masks_defined:
  "\<forall>k\<in>set is. groups (cell_count st ! k) < 32
      \<and> pool_ptr st ! k + groups (cell_count st ! k) < length (pool_buffer st) \<Longrightarrow>
   \<exists>st'. init_masks is st = Returns (True, st')"
proof (induction "is" arbitrary: st)
  case Nil
  then show ?case by simp
next
  case (Cons i "is")
  from Cons.prems have i: "groups (cell_count st ! i) < 32"
    "pool_ptr st ! i + groups (cell_count st ! i) < length (pool_buffer st)"
    by auto
  show ?case
    unfolding init_masks_Cons_ok [OF i]
    by (rule Cons.IH) (use Cons.prems in simp)
qed

text \<open>The state the initialisation loops start from, once the tables are placed.\<close>

lemma placed_sums:
  assumes tf: "tables_fresh count st0 s1" and p0: "pool_size st0 = 0"
    and pl: "place_segments segs count [0..<count] 0 s1 = Returns (True, s2)"
    and c: "0 < count" "count \<le> 64"
    and cc: "\<forall>i < count. unat (seg_count (segs ! i)) \<le> 992"
    and nz: "sz_of segs 0 \<noteq> 0"
  shows "pool_size s2 = pool_base (cell_count s2) count"
    and "buffer_size s2 = seg_base (segment_sizes s2) (cell_count s2) count"
    and "\<forall>k < count. cell_count s2 ! k \<le> 992"
    and "\<forall>k < count. 4 \<le> segment_sizes s2 ! k \<and> segment_sizes s2 ! k \<le> 64 \<and> 4 dvd segment_sizes s2 ! k"
proof -
  from tf have b: "\<forall>i\<in>set [0..<count]. i < length (segment_sizes s1) \<and> i < length (cell_count s1)"
    and z: "pool_size s1 = 0" "buffer_size s1 = 0"
    unfolding tables_fresh_def using p0 by simp_all
  have v: "\<And>k. k < count \<Longrightarrow> 4 \<le> segment_sizes s2 ! k \<and> segment_sizes s2 ! k \<le> 64 \<and> 4 dvd segment_sizes s2 ! k
     \<and> (\<exists>ix. (ix = 0 \<or> ix < count) \<and> cell_count s2 ! k = unat (seg_count (segs ! ix)))"
    using place_segments_values [OF pl _ nz b] by auto
  show cb: "\<forall>k < count. cell_count s2 ! k \<le> 992"
  proof (intro allI impI)
    fix k assume "k < count"
    from v [OF this] obtain ix where "ix = 0 \<or> ix < count" "cell_count s2 ! k = unat (seg_count (segs ! ix))"
      by blast
    with c(1) cc show "cell_count s2 ! k \<le> 992" by auto
  qed
  show sb: "\<forall>k < count. 4 \<le> segment_sizes s2 ! k \<and> segment_sizes s2 ! k \<le> 64 \<and> 4 dvd segment_sizes s2 ! k"
    using v by blast
  from place_segments_sums [OF pl _ b] z
  have s: "pool_size s2 = pool_base (cell_count s2) count mod 65536"
    "buffer_size s2 = seg_base (segment_sizes s2) (cell_count s2) count mod 2 ^ 32"
    by (simp_all add: pool_base_def seg_base_def)
  from cb have "\<forall>j < count. groups (cell_count s2 ! j) \<le> 31"
    by (simp add: groups_le_31)
  from pool_base_bound [OF this] c(2) have "pool_base (cell_count s2) count < 65536"
    by simp
  with s(1) show "pool_size s2 = pool_base (cell_count s2) count" by simp
  from cb sb have "\<forall>j < count. segment_sizes s2 ! j \<le> 64 \<and> cell_count s2 ! j \<le> 992"
    by simp
  from seg_base_bound [OF this] c(2) have "seg_base (segment_sizes s2) (cell_count s2) count < 2 ^ 32"
    by simp
  with s(2) show "buffer_size s2 = seg_base (segment_sizes s2) (cell_count s2) count" by simp
qed

lemma begin_succeeds:
  assumes ni: "\<not> initialized st0" and p0: "pool_size st0 = 0"
    and c: "0 < count" "count \<le> 64" "count \<le> length segs"
    and oom: "\<forall>a. \<not> oom a"
    and szs: "\<forall>i < count. 1 \<le> sz_of segs i \<and> sz_of segs i * 4 \<le> 64"
    and cc: "\<forall>i < count. unat (seg_count (segs ! i)) \<le> 992"
  shows "\<exists>st. mempool_begin oom st0 segs count = Returns (True, st)"
proof -
  from alloc_tables_ok [OF oom] obtain t where at: "alloc_tables oom count st0 = Returns (True, t)"
    by blast
  let ?s1 = "t\<lparr>initialized := True, segment_count := count, buffer_size := 0\<rparr>"
  note tf = alloc_tables_True_D(1) [OF at]
  from place_segments_succeeds [OF c(3) _ szs, of "[0..<count]" 0 ?s1]
  obtain s2 where pl: "place_segments segs count [0..<count] 0 ?s1 = Returns (True, s2)"
    by auto
  from alloc_buffers_ok [OF oom] obtain u where
    ab: "alloc_buffers oom (s2\<lparr>max_segment_size := segment_sizes s2 ! (count - 1)\<rparr>) = Returns (True, u)"
    by blast
  note bf = alloc_buffers_True_D(1) [OF ab]
  from szs c(1) have nz: "sz_of segs 0 \<noteq> 0" by auto
  note ps = placed_sums [OF tf p0 pl c(1,2) cc nz]
  note plf = place_segments_frame [OF pl]
  let ?s3 = "init_pointers count (init_lookup u)"
  let ?s4 = "fold magic_step [0..<count] ?s3"
  note mf = magic_fold_frame [of "[0..<count]" ?s3]
  note pf = init_pointers_frame [of count "init_lookup u"]
  note lf = init_lookup_frame [of u]
  have l1: "length (segment_ptr t) = count" "length (pool_ptr t) = count"
    using tf unfolding tables_fresh_def by simp_all
  have e3: "segment_sizes ?s3 = segment_sizes s2" "cell_count ?s3 = cell_count s2"
    using bf unfolding buffers_fresh_def by (simp_all add: pf lf)
  have "\<not> list_ex (\<lambda>i. segment_sizes ?s3 ! i = 0) [0..<count]"
    using ps(4) unfolding e3 by (auto simp: list_ex_iff)
  then have im: "init_magic count ?s3 = Returns (True, ?s4)"
    by (simp add: init_magic_eq)
  have ul: "length (segment_ptr (init_lookup u)) = count" "length (pool_ptr (init_lookup u)) = count"
    using bf unfolding buffers_fresh_def by (simp_all add: lf plf l1)
  have e4: "cell_count ?s4 = cell_count s2" "pool_buffer ?s4 = replicate (pool_size s2) 0"
    using bf unfolding buffers_fresh_def by (simp_all add: mf pf lf)
  have pp: "\<forall>k < count. pool_ptr ?s4 ! k = pool_base (cell_count s2) k"
    using init_pointers_values(2) [OF c(1) ul] bf unfolding buffers_fresh_def
    by (simp add: mf lf)
  have "\<forall>k\<in>set [0..<count]. groups (cell_count ?s4 ! k) < 32
      \<and> pool_ptr ?s4 ! k + groups (cell_count ?s4 ! k) < length (pool_buffer ?s4)"
  proof
    fix k assume "k \<in> set [0..<count]"
    then have k: "k < count" by simp
    with ps(3) have g: "groups (cell_count s2 ! k) \<le> 31" by (simp add: groups_le_31)
    from k have "pool_base (cell_count s2) k + groups (cell_count s2 ! k) < pool_base (cell_count s2) (Suc k)"
      by simp
    also from k have "\<dots> \<le> pool_base (cell_count s2) count"
      by (intro pool_base_le) simp
    finally show "groups (cell_count ?s4 ! k) < 32
      \<and> pool_ptr ?s4 ! k + groups (cell_count ?s4 ! k) < length (pool_buffer ?s4)"
      using g pp k unfolding e4 ps(1) by simp
  qed
  from init_masks_defined [OF this] obtain st where "init_masks [0..<count] ?s4 = Returns (True, st)"
    by blast
  with ni c at pl ab im have "mempool_begin oom st0 segs count = Returns (True, st)"
    by (simp add: mempool_begin_def)
  then show ?thesis by blast
qed

lemmas begin_defs =
  mempool_begin_def alloc_tables_def alloc_buffers_def and_then_def new_array_def fail_def clean_def
  delete_array_def succeeds_def fails_def state_of_def

lemma no_freed_new [simp]: "no_freed mempool_new"
  by (simp add: no_freed_def mempool_new_def)

lemma mempool_new_simps [simp]: "\<not> initialized mempool_new" "pool_size mempool_new = 0"
  by (simp_all add: mempool_new_def)

lemma succeeds_iff: "succeeds r \<longleftrightarrow> (\<exists>st. r = Returns (True, st))"
  by (cases r) (auto simp: succeeds_def)

lemma fails_iff: "fails r \<longleftrightarrow> (\<exists>st. r = Returns (False, st))"
  by (cases r) (auto simp: fails_def)

lemma succeeds_state_of: "succeeds r \<Longrightarrow> r = Returns (True, state_of r)"
  by (auto simp: succeeds_iff state_of_def)

lemma all_less_2: "(\<forall>i < (2::nat). P i) \<longleftrightarrow> P 0 \<and> P 1"
  by (auto simp: less_2_cases_iff)

lemma not_True_fails:
  assumes "r \<noteq> Undefined" "r \<noteq> Bad_alloc" "\<And>st. r \<noteq> Returns (True, st)"
  shows "fails r"
proof (cases r)
  case Undefined
  with assms show ?thesis by simp
next
  case Bad_alloc
  with assms show ?thesis by simp
next
  case (Returns x)
  with assms(3) [of "snd x"] show ?thesis
    by (cases x) (auto simp: fails_def)
qed

lemma begin_fails:
  assumes "0 < count" "count \<le> length segs" "\<forall>a. \<not> oom a"
    and "\<And>s1 s2. place_segments segs count [0..<count] 0 s1 = Returns (True, s2) \<Longrightarrow> False"
  shows "fails (mempool_begin oom mempool_new segs count)"
proof (rule not_True_fails)
  show "mempool_begin oom mempool_new segs count \<noteq> Undefined"
  proof
    assume "mempool_begin oom mempool_new segs count = Undefined"
    from begin_Undefined_D [OF this no_freed_new assms(2)] assms(1,4) show False by auto
  qed
next
  from assms(3) show "mempool_begin oom mempool_new segs count \<noteq> Bad_alloc"
    by (rule begin_no_throw)
next
  fix st
  show "mempool_begin oom mempool_new segs count \<noteq> Returns (True, st)"
  proof
    assume "mempool_begin oom mempool_new segs count = Returns (True, st)"
    from begin_True_D [OF this] assms(4) show False by blast
  qed
qed

text \<open>
  Two inputs that \<open>begin\<close> does not guard. With \<open>count = 0\<close> the read
  \<open>_segment_sizes[count - 1]\<close> is outside the array; with 993 cells in a segment its bitmap
  has 32 groups and \<open>_prepare_mask\<close> shifts a 32-bit word by 32. Neither call returns
  \<open>false\<close>.
\<close>

lemma begin_zero_count:
  assumes "\<forall>a. \<not> oom a"
  shows "mempool_begin oom mempool_new segs 0 = Undefined"
    and "\<not> fails (mempool_begin oom mempool_new segs 0)"
  using assms by (simp_all add: begin_defs mempool_new_def)

lemma begin_993_cells:
  "mempool_begin (\<lambda>_. False) mempool_new [\<lparr>seg_count = 993, seg_size = 1\<rparr>] 1 = Undefined"
  by (simp add: begin_defs mempool_new_def get_next_segment_def SEGMENT_STEP_def Let_def
      init_lookup_def lookup_segment_def init_pointers_def init_magic_def not_pow2_def prepare_mask_def)

text \<open>
  C4, as the code has it. \<open>begin\<close> on a fresh object fails when \<open>count\<close> exceeds 64, and,
  every \<open>new[]\<close> succeeding, when a descriptor among the first \<open>count\<close> has size 0 or a
  resolved size above 64 bytes; it succeeds when \<open>count\<close> is between 1 and 64, every size is
  between 1 and 16 units, every \<open>new[]\<close> succeeds and no cell count exceeds 992. A cell
  count of 0 is not rejected.
\<close>

theorem begin_contract:
  "(64 < count \<longrightarrow> fails (mempool_begin oom mempool_new segs count))
   \<and> (1 \<le> count \<and> count \<le> 64 \<and> count \<le> length segs \<and> (\<forall>a. \<not> oom a)
        \<and> (\<exists>i < count. seg_size (segs ! i) = 0 \<or> 64 < unat (seg_size (segs ! i)) * SEGMENT_STEP)
      \<longrightarrow> fails (mempool_begin oom mempool_new segs count))
   \<and> (1 \<le> count \<and> count \<le> 64 \<and> count \<le> length segs \<and> (\<forall>a. \<not> oom a)
        \<and> (\<forall>i < count. seg_size (segs ! i) \<noteq> 0 \<and> unat (seg_size (segs ! i)) * SEGMENT_STEP \<le> 64
               \<and> unat (seg_count (segs ! i)) \<le> 992)
      \<longrightarrow> succeeds (mempool_begin oom mempool_new segs count))"
proof (intro conjI impI)
  assume "64 < count"
  then show "fails (mempool_begin oom mempool_new segs count)"
    by (simp add: mempool_begin_def fails_def)
next
  assume a: "1 \<le> count \<and> count \<le> 64 \<and> count \<le> length segs \<and> (\<forall>a. \<not> oom a)
        \<and> (\<exists>i < count. seg_size (segs ! i) = 0 \<or> 64 < unat (seg_size (segs ! i)) * SEGMENT_STEP)"
  then obtain i where i: "i < count" "sz_of segs i = 0 \<or> 64 < sz_of segs i * 4"
    by (auto simp: SEGMENT_STEP_def unat_eq_0)
  show "fails (mempool_begin oom mempool_new segs count)"
  proof (rule begin_fails)
    fix s1 s2
    assume "place_segments segs count [0..<count] 0 s1 = Returns (True, s2)"
    from place_segments_True_valid [OF this i(1)] i(2) show False by simp
  qed (use a in simp_all)
next
  assume a: "1 \<le> count \<and> count \<le> 64 \<and> count \<le> length segs \<and> (\<forall>a. \<not> oom a)
        \<and> (\<forall>i < count. seg_size (segs ! i) \<noteq> 0 \<and> unat (seg_size (segs ! i)) * SEGMENT_STEP \<le> 64
               \<and> unat (seg_count (segs ! i)) \<le> 992)"
  then have "\<forall>i < count. 1 \<le> sz_of segs i \<and> sz_of segs i * 4 \<le> 64"
    by (auto simp: SEGMENT_STEP_def unat_eq_0 Suc_le_eq unat_gt_0)
  from begin_succeeds [of mempool_new count segs oom, OF _ _ _ _ _ _ this] a
  show "succeeds (mempool_begin oom mempool_new segs count)"
    by (simp add: succeeds_iff)
qed

theorem begin_contract_witness:
  "fails (mempool_begin (\<lambda>_. False) mempool_new [] 65)
   \<and> fails (mempool_begin (\<lambda>_. False) mempool_new [\<lparr>seg_count = 1, seg_size = 0\<rparr>] 1)
   \<and> succeeds (mempool_begin (\<lambda>_. False) mempool_new
        [\<lparr>seg_count = 4, seg_size = 1\<rparr>, \<lparr>seg_count = 2, seg_size = 4\<rparr>] 2)"
  using begin_contract [of 65 "\<lambda>_. False" "[]"]
    begin_contract [of 1 "\<lambda>_. False" "[\<lparr>seg_count = 1, seg_size = 0\<rparr>]"]
    begin_contract [of 2 "\<lambda>_. False" "[\<lparr>seg_count = 4, seg_size = 1\<rparr>, \<lparr>seg_count = 2, seg_size = 4\<rparr>]"]
  by (simp add: SEGMENT_STEP_def all_less_2)

theorem begin_accepts_zero_cells:
  "succeeds (mempool_begin (\<lambda>_. False) mempool_new [\<lparr>seg_count = 0, seg_size = 1\<rparr>] 1)
   \<and> \<not> fails (mempool_begin (\<lambda>_. False) mempool_new [\<lparr>seg_count = 0, seg_size = 1\<rparr>] 1)"
proof -
  have "\<exists>st. mempool_begin (\<lambda>_. False) mempool_new [\<lparr>seg_count = 0, seg_size = 1\<rparr>] 1 = Returns (True, st)"
    by (rule begin_succeeds) simp_all
  then show ?thesis by (auto simp: succeeds_def fails_def)
qed

subsection \<open>Two descriptors of different sizes\<close>

lemma gns_two:
  assumes "sz_of [a, b] 0 \<noteq> sz_of [a, b] 1"
  shows "get_next_segment [a, b] 2 0 = (if unat (seg_size a) = 0 then 1 else if unat (seg_size b) = 0 then 0
           else if unat (seg_size a) < unat (seg_size b) then 0 else 1)"
    and "unat (seg_size a) < unat (seg_size b) \<Longrightarrow> get_next_segment [a, b] 2 (unat (seg_size a)) = 1"
    and "unat (seg_size b) < unat (seg_size a) \<Longrightarrow> get_next_segment [a, b] 2 (unat (seg_size b)) = 0"
  using assms sz_of_lt [of "[a, b]" 0] sz_of_lt [of "[a, b]" 1]
  by (auto simp: get_next_segment_def numeral_2_eq_2)

text \<open>The two tables \<open>begin\<close> builds from two descriptors of different sizes: the smaller
  size first, whatever the order of the descriptors.\<close>

lemma begin_two_tables:
  assumes b: "mempool_begin oom st0 [a, b] 2 = Returns (True, st)"
    and lt: "unat (seg_size a) < unat (seg_size b)"
  shows "segment_sizes st = [unat (seg_size a) * 4, unat (seg_size b) * 4]"
    and "cell_count st = [unat (seg_count a), unat (seg_count b)]"
proof -
  from b obtain s1 s2 where nz: "sz_of [a, b] 0 \<noteq> 0"
    and tf: "tables_fresh 2 st0 s1"
    and pl: "place_segments [a, b] 2 [0..<2] 0 s1 = Returns (True, s2)"
    and eq: "segment_sizes st = segment_sizes s2" "cell_count st = cell_count s2"
    by (rule begin_True_fields)
  have u: "[0..<2] = [0, 1]" by (simp add: upt_rec)
  from lt have ne: "sz_of [a, b] 0 \<noteq> sz_of [a, b] 1" by simp
  note g = gns_two [OF ne]
  from nz lt have g0: "get_next_segment [a, b] 2 0 = 0"
    unfolding g(1) by simp
  note t1 = place_segments_Cons_True [OF pl [unfolded u]]
  from t1(5) have p1: "place_segments [a, b] 2 [1] (unat (seg_size a)) (place_one [a, b] 0 0 s1) = Returns (True, s2)"
    unfolding g0 by simp
  note t2 = place_segments_Cons_True [OF p1]
  from t2(5) have "s2 = place_one [a, b] 1 1 (place_one [a, b] 0 0 s1)"
    unfolding g(2) [OF lt] by simp
  with tf show "segment_sizes st = [unat (seg_size a) * 4, unat (seg_size b) * 4]"
    and "cell_count st = [unat (seg_count a), unat (seg_count b)]"
    unfolding eq tables_fresh_def by (simp_all add: place_one_def numeral_2_eq_2)
qed


subsection \<open>The scenario of the spec\<close>

lemma scenario_begin:
  "mempool_begin (\<lambda>_. False) mempool_new
     [\<lparr>seg_count = 4, seg_size = 1\<rparr>, \<lparr>seg_count = 2, seg_size = 4\<rparr>] 2 = Returns (True, scenario)"
proof -
  have "\<exists>st. mempool_begin (\<lambda>_. False) mempool_new
     [\<lparr>seg_count = 4, seg_size = 1\<rparr>, \<lparr>seg_count = 2, seg_size = 4\<rparr>] 2 = Returns (True, st)"
    by (rule begin_succeeds) (simp_all add: all_less_2)
  then show ?thesis
    by (auto simp: scenario_def state_of_def)
qed

lemma scenario_reachable: "reachable scenario"
  using scenario_begin by (rule reachable.init)

lemma scenario_tables:
  "segment_sizes scenario = [4, 16]" "cell_count scenario = [4, 2]"
  using begin_two_tables [OF scenario_begin] by simp_all

subsection \<open>Bit scans\<close>

lemma takeWhile_upt_props:
  "length (takeWhile P [0..<n]) \<le> n"
  "j < length (takeWhile P [0..<n]) \<Longrightarrow> P j"
  "length (takeWhile P [0..<n]) < n \<Longrightarrow> \<not> P (length (takeWhile P [0..<n]))"
proof -
  show le: "length (takeWhile P [0..<n]) \<le> n"
    using length_takeWhile_le [of P "[0..<n]"] by simp
  show "P j" if "j < length (takeWhile P [0..<n])"
  proof -
    from that le have "j < n" by simp
    from that have "takeWhile P [0..<n] ! j \<in> set (takeWhile P [0..<n])"
      by (rule nth_mem)
    then have "P (takeWhile P [0..<n] ! j)" by (rule set_takeWhileD [THEN conjunct2])
    with that \<open>j < n\<close> show ?thesis by (simp add: takeWhile_nth)
  qed
  show "\<not> P (length (takeWhile P [0..<n]))" if "length (takeWhile P [0..<n]) < n"
    using nth_length_takeWhile [of P "[0..<n]"] that by simp
qed

lemma ctz_props:
  fixes w :: "32 word"
  assumes "w \<noteq> 0"
  shows "ctz w < 32" "bit w (ctz w)" "\<And>j. j < ctz w \<Longrightarrow> \<not> bit w j"
proof -
  from assms obtain i where i: "bit w i" "i < 32"
    by (auto simp: bit_eq_iff dest: bit_imp_le_length)
  have "ctz w \<noteq> 32"
  proof
    assume "ctz w = 32"
    with takeWhile_upt_props(2) [of i "\<lambda>i. \<not> bit w i" 32] i show False
      by (simp add: ctz_def)
  qed
  with takeWhile_upt_props(1) [of "\<lambda>i. \<not> bit w i" 32] show lt: "ctz w < 32"
    by (simp add: ctz_def)
  from takeWhile_upt_props(3) [of "\<lambda>i. \<not> bit w i" 32] lt show "bit w (ctz w)"
    by (simp add: ctz_def)
  show "\<not> bit w j" if "j < ctz w" for j
    using takeWhile_upt_props(2) [of j "\<lambda>i. \<not> bit w i" 32] that by (simp add: ctz_def)
qed

lemma all_ones_iff:
  fixes w :: "32 word"
  shows "w = - 1 \<longleftrightarrow> (\<forall>b < 32. bit w b)"
  by (auto simp: bit_eq_iff dest: bit_imp_le_length)

lemma first_zero_props:
  fixes w :: "32 word"
  assumes "w \<noteq> - 1"
  shows "ctz (NOT w) < 32" "\<not> bit w (ctz (NOT w))" "\<And>j. j < ctz (NOT w) \<Longrightarrow> bit w j"
proof -
  from assms have nz: "NOT w \<noteq> 0"
    by (metis bit.compl_zero bit.double_compl)
  note p = ctz_props [OF nz]
  show lt: "ctz (NOT w) < 32" by (rule p(1))
  from p(2) show "\<not> bit w (ctz (NOT w))" by (simp add: bit_not_iff)
  show "bit w j" if "j < ctz (NOT w)" for j
    using p(3) [OF that] that lt by (simp add: bit_not_iff)
qed

lemma bit_mask_word:
  "b < 32 \<Longrightarrow> bit (mask_word c) b \<longleftrightarrow> c \<noteq> 0 \<and> c \<le> b"
  by (auto simp: mask_word_def bit_push_bit_iff bit_not_iff bit_mask_iff)

lemma groups_split: "b < 32 \<Longrightarrow> groups (32 * a + b) = a + (if b = 0 then 0 else 1)"
proof -
  assume b: "b < 32"
  have "groups (32 * a + b) = (b + 31 + a * 32) div 32"
    by (simp add: groups_def ac_simps)
  also have "\<dots> = (b + 31) div 32 + a"
    by simp
  also have "(b + 31) div 32 = (if b = 0 then 0 else 1)"
  proof (cases b)
    case 0
    then show ?thesis by simp
  next
    case (Suc c)
    with b have "c < 32" by simp
    then have "(c + 32) div 32 = 1" by simp
    with Suc show ?thesis by (simp add: ac_simps)
  qed
  finally show ?thesis by simp
qed

lemma groups_cases:
  obtains a b where "cc = 32 * a + b" "b < 32" "groups cc = a + (if b = 0 then 0 else 1)" "cc mod 32 = b"
proof -
  have "cc = 32 * (cc div 32) + cc mod 32" by simp
  moreover have "cc mod 32 < 32" by simp
  moreover from groups_split [OF this, of "cc div 32"]
  have "groups cc = cc div 32 + (if cc mod 32 = 0 then 0 else 1)" by simp
  ultimately show thesis using that by blast
qed

lemma groups_bounds:
  assumes "1 \<le> cc"
  shows "(groups cc - 1) * 32 < cc" "cc \<le> groups cc * 32"
proof -
  obtain a b where ab: "cc = 32 * a + b" "b < 32" "groups cc = a + (if b = 0 then 0 else 1)"
    by (rule groups_cases)
  from ab assms show "(groups cc - 1) * 32 < cc"
    by (cases "b = 0") auto
  from ab show "cc \<le> groups cc * 32"
    by (cases "b = 0") auto
qed

lemma groups_mod:
  assumes "1 \<le> cc"
  shows "cc mod 32 \<noteq> 0 \<Longrightarrow> cc = (groups cc - 1) * 32 + cc mod 32"
    and "cc mod 32 = 0 \<Longrightarrow> cc = groups cc * 32"
proof -
  obtain a b where ab: "cc = 32 * a + b" "b < 32" "groups cc = a + (if b = 0 then 0 else 1)" "cc mod 32 = b"
    by (rule groups_cases)
  show "cc = (groups cc - 1) * 32 + cc mod 32" if "cc mod 32 \<noteq> 0"
    using that ab by simp
  show "cc = groups cc * 32" if "cc mod 32 = 0"
    using that ab by simp
qed

subsection \<open>One pool inside the bitmap arena\<close>

lemma layout_ok_pool_buffer [simp]:
  "length pb = length (pool_buffer st) \<Longrightarrow> layout_ok (st\<lparr>pool_buffer := pb\<rparr>) = layout_ok st"
  by (simp add: layout_ok_def)

lemma wf_pool:
  assumes "well_formed st" "k < segment_count st"
  shows "pool_ptr st ! k = pool_base (cell_count st) k"
    and "1 \<le> cell_count st ! k" "cell_count st ! k \<le> 992"
    and "1 \<le> groups (cell_count st ! k)" "groups (cell_count st ! k) \<le> 31"
    and "pool_ptr st ! k + groups (cell_count st ! k) < length (pool_buffer st)"
proof -
  from assms have l: "layout_ok st" by (simp add: well_formed_def)
  with assms(2) show pp: "pool_ptr st ! k = pool_base (cell_count st) k"
    and c: "1 \<le> cell_count st ! k" "cell_count st ! k \<le> 992"
    by (simp_all add: layout_ok_def)
  from c(1) show "1 \<le> groups (cell_count st ! k)" by (rule groups_ge_1)
  from c(2) show "groups (cell_count st ! k) \<le> 31" by (rule groups_le_31)
  from l have len: "length (pool_buffer st) = pool_base (cell_count st) (segment_count st)"
    by (simp add: layout_ok_def)
  have "pool_base (cell_count st) k + groups (cell_count st ! k) < pool_base (cell_count st) (Suc k)"
    by simp
  also from assms(2) have "\<dots> \<le> pool_base (cell_count st) (segment_count st)"
    by (intro pool_base_le) simp
  finally show "pool_ptr st ! k + groups (cell_count st ! k) < length (pool_buffer st)"
    by (simp add: pp len)
qed

lemma wf_pools_disjoint:
  assumes "well_formed st" "j < segment_count st" "k < segment_count st" "j \<noteq> k"
    "x \<le> groups (cell_count st ! j)" "y \<le> groups (cell_count st ! k)"
  shows "pool_ptr st ! j + x \<noteq> pool_ptr st ! k + y"
proof -
  note pj = wf_pool(1) [OF assms(1,2)]
  note pk = wf_pool(1) [OF assms(1,3)]
  show ?thesis
  proof (cases "j < k")
    case True
    from pool_base_mono [OF this, of "cell_count st"] assms(5) show ?thesis
      unfolding pj pk by simp
  next
    case False
    with assms(4) have "k < j" by simp
    from pool_base_mono [OF this, of "cell_count st"] assms(6) show ?thesis
      unfolding pj pk by simp
  qed
qed

text \<open>
  Writing a new group word and a new cell word of group \<open>g0\<close> into pool \<open>sg\<close> keeps the
  invariant when the group bit \<open>g0\<close> is the conjunction of the new cell word's bits, the
  other group bits are unchanged and the padding of the cell word stays set.
\<close>

lemma mask_inv_update:
  assumes wf: "well_formed st" and sg: "sg < segment_count st"
    and g0: "g0 < groups (cell_count st ! sg)"
    and gw: "\<forall>g < 32. bit gw g \<longleftrightarrow>
               (if g = g0 then (\<forall>b < 32. bit cw b) else bit (pool_buffer st ! (pool_ptr st ! sg)) g)"
    and pad: "\<forall>b < 32. g0 = groups (cell_count st ! sg) - 1
                \<longrightarrow> cell_count st ! sg \<le> g0 * 32 + b \<longrightarrow> bit cw b"
  shows "well_formed (st\<lparr>pool_buffer := (pool_buffer st)[pool_ptr st ! sg + 1 + g0 := cw, pool_ptr st ! sg := gw]\<rparr>)"
proof -
  let ?pb = "pool_buffer st"
  let ?pp = "pool_ptr st ! sg"
  let ?G = "groups (cell_count st ! sg)"
  let ?pb' = "?pb[?pp + 1 + g0 := cw, ?pp := gw]"
  let ?st' = "st\<lparr>pool_buffer := ?pb'\<rparr>"
  note p = wf_pool [OF wf sg]
  from wf have mi: "mask_inv st" by (simp add: well_formed_def)
  have n0: "?pb' ! ?pp = gw" using p(6) by simp
  have n1: "?pb' ! (?pp + 1 + g0) = cw" using p(6) g0 by simp
  have n2: "\<And>g. g < ?G \<Longrightarrow> g \<noteq> g0 \<Longrightarrow> ?pb' ! (?pp + 1 + g) = ?pb ! (?pp + 1 + g)"
    by simp
  have other: "\<And>k y. k < segment_count st \<Longrightarrow> k \<noteq> sg \<Longrightarrow> y \<le> groups (cell_count st ! k)
      \<Longrightarrow> ?pb' ! (pool_ptr st ! k + y) = ?pb ! (pool_ptr st ! k + y)"
  proof -
    fix k y
    assume k: "k < segment_count st" "k \<noteq> sg" "y \<le> groups (cell_count st ! k)"
    from wf_pools_disjoint [OF wf k(1) sg k(2) k(3), of 0]
    have a: "pool_ptr st ! k + y \<noteq> ?pp" by simp
    from g0 have "1 + g0 \<le> ?G" by simp
    from wf_pools_disjoint [OF wf k(1) sg k(2) k(3) this]
    have b: "pool_ptr st ! k + y \<noteq> ?pp + 1 + g0" by simp
    from a b show "?pb' ! (pool_ptr st ! k + y) = ?pb ! (pool_ptr st ! k + y)"
      by simp
  qed
  have "mask_inv ?st'"
    unfolding mask_inv_def
  proof (intro allI impI)
    fix k
    assume "k < segment_count ?st'"
    then have k: "k < segment_count st" by simp
    from mi k have old:
      "\<forall>g < groups (cell_count st ! k).
           bit (?pb ! (pool_ptr st ! k)) g \<longleftrightarrow> (\<forall>b < 32. bit (?pb ! (pool_ptr st ! k + 1 + g)) b)"
      "\<forall>g < 32. groups (cell_count st ! k) \<le> g \<longrightarrow> bit (?pb ! (pool_ptr st ! k)) g"
      "\<forall>b < 32. cell_count st ! k \<le> (groups (cell_count st ! k) - 1) * 32 + b
               \<longrightarrow> bit (?pb ! (pool_ptr st ! k + groups (cell_count st ! k))) b"
      unfolding mask_inv_def by blast+
    show "(\<forall>g < groups (cell_count ?st' ! k).
           bit (pool_buffer ?st' ! (pool_ptr ?st' ! k)) g
             \<longleftrightarrow> (\<forall>b < 32. bit (pool_buffer ?st' ! (pool_ptr ?st' ! k + 1 + g)) b))
        \<and> (\<forall>g < 32. groups (cell_count ?st' ! k) \<le> g \<longrightarrow> bit (pool_buffer ?st' ! (pool_ptr ?st' ! k)) g)
        \<and> (\<forall>b < 32. cell_count ?st' ! k \<le> (groups (cell_count ?st' ! k) - 1) * 32 + b
               \<longrightarrow> bit (pool_buffer ?st' ! (pool_ptr ?st' ! k + groups (cell_count ?st' ! k))) b)"
    proof (cases "k = sg")
      case False
      have e0: "?pb' ! (pool_ptr st ! k) = ?pb ! (pool_ptr st ! k)"
        using other [OF k False, of 0] by simp
      have e1: "?pb' ! (pool_ptr st ! k + 1 + g) = ?pb ! (pool_ptr st ! k + 1 + g)"
        if "g < groups (cell_count st ! k)" for g
      proof -
        from that have "1 + g \<le> groups (cell_count st ! k)" by simp
        from other [OF k False this] show ?thesis by (simp add: add.assoc)
      qed
      have e2: "?pb' ! (pool_ptr st ! k + groups (cell_count st ! k))
          = ?pb ! (pool_ptr st ! k + groups (cell_count st ! k))"
        using other [OF k False] by simp
      from old e0 e1 e2 show ?thesis
        by simp
    next
      case True
      have a: "\<forall>g < ?G. bit gw g \<longleftrightarrow> (\<forall>b < 32. bit (?pb' ! (?pp + 1 + g)) b)"
      proof (intro allI impI)
        fix g assume g: "g < ?G"
        with p(5) have g32: "g < 32" by simp
        show "bit gw g \<longleftrightarrow> (\<forall>b < 32. bit (?pb' ! (?pp + 1 + g)) b)"
        proof (cases "g = g0")
          case True
          with gw g32 n1 show ?thesis by simp
        next
          case False
          with gw g32 have "bit gw g = bit (?pb ! ?pp) g" by simp
          also from old(1) g True have "\<dots> \<longleftrightarrow> (\<forall>b < 32. bit (?pb ! (?pp + 1 + g)) b)"
            by simp
          finally show ?thesis using n2 [OF g False] by simp
        qed
      qed
      have b: "\<forall>g < 32. ?G \<le> g \<longrightarrow> bit gw g"
        using gw old(2) g0 True by auto
      have c: "\<forall>b < 32. cell_count st ! sg \<le> (?G - 1) * 32 + b \<longrightarrow> bit (?pb' ! (?pp + ?G)) b"
      proof (intro allI impI)
        fix b assume b: "b < 32" "cell_count st ! sg \<le> (?G - 1) * 32 + b"
        show "bit (?pb' ! (?pp + ?G)) b"
        proof (cases "g0 = ?G - 1")
          case True
          with g0 have idx: "?pp + ?G = ?pp + 1 + g0" by simp
          have "?pb' ! (?pp + ?G) = cw"
            by (subst idx) (rule n1)
          moreover from b(2) True have "cell_count st ! sg \<le> g0 * 32 + b" by simp
          with pad b(1) True have "bit cw b" by blast
          ultimately show ?thesis by simp
        next
          case False
          with g0 have "?pp + ?G \<noteq> ?pp + 1 + g0" "?pp + ?G \<noteq> ?pp" by simp_all
          then have "?pb' ! (?pp + ?G) = ?pb ! (?pp + ?G)" by simp
          with old(3) b \<open>k = sg\<close> show ?thesis by simp
        qed
      qed
      from a b c n0 show ?thesis
        unfolding True by simp
    qed
  qed
  with wf show ?thesis
    by (simp add: well_formed_def)
qed

subsection \<open>alloc inside one segment\<close>

lemma first_zero_eq:
  fixes w :: "32 word"
  assumes "j < 32" "\<not> bit w j" "\<forall>i < j. bit w i"
  shows "w \<noteq> - 1" "ctz (NOT w) = j"
proof -
  from assms(1,2) show ne: "w \<noteq> - 1" by (auto simp: all_ones_iff)
  note z = first_zero_props [OF ne]
  show "ctz (NOT w) = j"
  proof (rule ccontr)
    assume "ctz (NOT w) \<noteq> j"
    then consider "ctz (NOT w) < j" | "j < ctz (NOT w)" by linarith
    then show False
    proof cases
      case 1
      with assms(3) z(2) show False by blast
    next
      case 2
      with z(3) assms(2) show False by blast
    qed
  qed
qed

lemma wf_lengths:
  assumes "well_formed st"
  shows "length (segment_sizes st) = segment_count st" "length (cell_count st) = segment_count st"
    "length (segment_ptr st) = segment_count st" "length (pool_ptr st) = segment_count st"
    "length (magic_number st) = segment_count st" "length (segment_shift st) = segment_count st"
  using assms by (simp_all add: well_formed_def tables_ok_def layout_ok_def)

lemma cell_group:
  assumes "1 \<le> cc" "c < cc"
  shows "c div 32 < groups cc" "c mod 32 < 32"
proof -
  from groups_bounds(2) [OF assms(1)] assms(2) have "c < groups cc * 32" by simp
  then show "c div 32 < groups cc" by (simp add: less_mult_imp_div_less)
  show "c mod 32 < 32" by simp
qed

lemma group_word_full_iff:
  assumes wf: "well_formed st" and sg: "sg < segment_count st"
  shows "pool_buffer st ! (pool_ptr st ! sg) = - 1 \<longleftrightarrow> (\<forall>c < cell_count st ! sg. cell_used st sg c)"
proof -
  let ?pb = "pool_buffer st"
  let ?pp = "pool_ptr st ! sg"
  let ?cc = "cell_count st ! sg"
  let ?G = "groups ?cc"
  note p = wf_pool [OF wf sg]
  from wf sg have mi:
    "\<forall>g < ?G. bit (?pb ! ?pp) g \<longleftrightarrow> (\<forall>b < 32. bit (?pb ! (?pp + 1 + g)) b)"
    "\<forall>g < 32. ?G \<le> g \<longrightarrow> bit (?pb ! ?pp) g"
    "\<forall>b < 32. ?cc \<le> (?G - 1) * 32 + b \<longrightarrow> bit (?pb ! (?pp + ?G)) b"
    unfolding well_formed_def mask_inv_def by blast+
  show ?thesis
  proof
    assume full: "?pb ! ?pp = - 1"
    show "\<forall>c < ?cc. cell_used st sg c"
    proof (intro allI impI)
      fix c assume c: "c < ?cc"
      note cg = cell_group [OF p(2) c]
      from full have "bit (?pb ! ?pp) (c div 32)"
        using cg(1) p(5) by (simp add: all_ones_iff)
      with mi(1) cg show "cell_used st sg c"
        by (simp add: cell_used_def)
    qed
  next
    assume used: "\<forall>c < ?cc. cell_used st sg c"
    have words: "\<forall>b < 32. bit (?pb ! (?pp + 1 + g)) b" if g: "g < ?G" for g
    proof (intro allI impI)
      fix b :: nat assume b: "b < 32"
      show "bit (?pb ! (?pp + 1 + g)) b"
      proof (cases "g * 32 + b < ?cc")
        case True
        with used have "cell_used st sg (g * 32 + b)" by simp
        with b show ?thesis by (simp add: cell_used_def)
      next
        case False
        from groups_bounds(1) [OF p(2)] False have "(?G - 1) * 32 < g * 32 + b" by simp
        with b have "?G - 1 \<le> g" by (cases "?G - 1 \<le> g") (auto simp: not_le)
        with g have ge: "g = ?G - 1" by simp
        with False mi(3) b have "bit (?pb ! (?pp + ?G)) b" by simp
        moreover from ge g have "?pp + ?G = ?pp + 1 + g" by simp
        ultimately show ?thesis by simp
      qed
    qed
    have "bit (?pb ! ?pp) g" if "g < 32" for g
    proof (cases "g < ?G")
      case True
      with mi(1) words [OF True] show ?thesis by simp
    next
      case False
      with mi(2) that show ?thesis by simp
    qed
    then show "?pb ! ?pp = - 1" by (simp add: all_ones_iff)
  qed
qed

lemma alloc_in_segment_full:
  assumes wf: "well_formed st" and sg: "sg < segment_count st"
    and full: "\<forall>c < cell_count st ! sg. cell_used st sg c"
  shows "alloc_in_segment st sg =
           (if Suc sg < segment_count st then Escalate (segment_sizes st ! Suc sg)
            else Done (Returns (None, st)))"
proof -
  note p = wf_pool [OF wf sg]
  note l = wf_lengths [OF wf]
  from group_word_full_iff [OF wf sg] full have "pool_buffer st ! (pool_ptr st ! sg) = - 1"
    by simp
  with p(6) sg l show ?thesis
    by (auto simp: alloc_in_segment_def)
qed

lemma cell_of_group: "b < 32 \<Longrightarrow> (g * 32 + b) div 32 = g \<and> (g * 32 + b) mod 32 = (b::nat)"
  by simp

text \<open>
  A segment with a free cell: \<open>alloc\<close> takes the lowest free cell \<open>c0\<close>, returns its address,
  marks exactly that cell used and keeps the invariant.
\<close>

lemma alloc_in_segment_free:
  assumes wf: "well_formed st" and sg: "sg < segment_count st"
    and c0: "c0 < cell_count st ! sg" "\<not> cell_used st sg c0" "\<forall>c < c0. cell_used st sg c"
  shows "\<exists>st'. alloc_in_segment st sg =
            Done (Returns (Some (int (segment_ptr st ! sg + c0 * segment_sizes st ! sg)), st'))
          \<and> well_formed st'
          \<and> (\<forall>k c. k < segment_count st \<longrightarrow> c < cell_count st ! k \<longrightarrow>
                (cell_used st' k c \<longleftrightarrow> cell_used st k c \<or> (k = sg \<and> c = c0)))
          \<and> st' = st\<lparr>pool_buffer := pool_buffer st'\<rparr>"
proof -
  let ?pb = "pool_buffer st"
  let ?pp = "pool_ptr st ! sg"
  let ?cc = "cell_count st ! sg"
  let ?G = "groups ?cc"
  let ?g0 = "c0 div 32"
  let ?b0 = "c0 mod 32"
  let ?w0 = "?pb ! ?pp"
  let ?cm = "?pb ! (?pp + 1 + ?g0)"
  note p = wf_pool [OF wf sg]
  note l = wf_lengths [OF wf]
  note cg = cell_group [OF p(2) c0(1)]
  from wf sg have mi:
    "\<forall>g < ?G. bit ?w0 g \<longleftrightarrow> (\<forall>b < 32. bit (?pb ! (?pp + 1 + g)) b)"
    "\<forall>g < 32. ?G \<le> g \<longrightarrow> bit ?w0 g"
    "\<forall>b < 32. ?cc \<le> (?G - 1) * 32 + b \<longrightarrow> bit (?pb ! (?pp + ?G)) b"
    unfolding well_formed_def mask_inv_def by blast+
  from c0(2) have nb: "\<not> bit ?cm ?b0" by (simp add: cell_used_def)
  \<comment> \<open>the group scan finds the group of \<open>c0\<close>\<close>
  from nb mi(1) cg have ng: "\<not> bit ?w0 ?g0" by auto
  have before: "\<forall>g < ?g0. bit ?w0 g"
  proof (intro allI impI)
    fix g assume g: "g < ?g0"
    with cg(1) have gG: "g < ?G" by simp
    have "\<forall>b < 32. bit (?pb ! (?pp + 1 + g)) b"
    proof (intro allI impI)
      fix b :: nat assume b: "b < 32"
      from g have "Suc g \<le> c0 div 32" by simp
      then have "Suc g * 32 \<le> c0 div 32 * 32" by (rule mult_le_mono1)
      also have "\<dots> \<le> c0" by simp
      finally have "Suc g * 32 \<le> c0" .
      with b have "g * 32 + b < c0" by simp
      with c0(3) have "cell_used st sg (g * 32 + b)" by simp
      with b show "bit (?pb ! (?pp + 1 + g)) b" by (simp add: cell_used_def)
    qed
    with mi(1) gG show "bit ?w0 g" by simp
  qed
  from cg(1) p(5) have g32: "?g0 < 32" by simp
  note fz = first_zero_eq [OF g32 ng before]
  \<comment> \<open>the cell scan finds \<open>c0\<close>\<close>
  have beforeb: "\<forall>b < ?b0. bit ?cm b"
  proof (intro allI impI)
    fix b assume b: "b < ?b0"
    then have "?g0 * 32 + b < c0"
      using div_mult_mod_eq [of c0 32] by linarith
    with c0(3) have "cell_used st sg (?g0 * 32 + b)" by simp
    moreover from b have "b < 32" using cg(2) by simp
    ultimately show "bit ?cm b" by (simp add: cell_used_def)
  qed
  note fb = first_zero_eq [OF cg(2) nb beforeb]
  let ?cm' = "set_bit ?b0 ?cm"
  let ?gw = "if ?cm' = - 1 then set_bit ?g0 ?w0 else ?w0"
  let ?pb' = "?pb[?pp + 1 + ?g0 := ?cm', ?pp := ?gw]"
  let ?st' = "st\<lparr>pool_buffer := ?pb'\<rparr>"
  have idx: "?g0 * 32 + ?b0 = c0" by simp
  have pbeq: "(if ?cm' = - 1 then (?pb[?pp + ?g0 + 1 := ?cm'])[?pp := set_bit ?g0 ((?pb[?pp + ?g0 + 1 := ?cm']) ! ?pp)]
        else ?pb[?pp + ?g0 + 1 := ?cm']) = ?pb'"
  proof (cases "?cm' = - 1")
    case True
    then show ?thesis by (simp add: add.commute add.left_commute)
  next
    case False
    have "(?pb[?pp + 1 + ?g0 := ?cm']) ! ?pp = ?w0" by simp
    then have "?pb[?pp + 1 + ?g0 := ?cm', ?pp := ?w0] = ?pb[?pp + 1 + ?g0 := ?cm']"
      by (metis list_update_id)
    with False show ?thesis by (simp add: add.commute add.left_commute)
  qed
  have tc: "take_cell st sg ?g0 = Returns (Some (int (segment_ptr st ! sg + c0 * segment_sizes st ! sg)), ?st')"
  proof -
    from p(6) cg(1) have a: "\<not> length ?pb \<le> ?pp + ?g0 + 1" by simp
    have b: "?pb ! (?pp + ?g0 + 1) = ?cm" by (simp add: add.commute add.left_commute)
    from sg l have c: "\<not> length (segment_sizes st) \<le> sg" by simp
    show ?thesis
      unfolding take_cell_def Let_def
      using a c fb by (simp only: b if_False fb(2) idx pbeq)
  qed
  have ais: "alloc_in_segment st sg = Done (take_cell st sg ?g0)"
  proof -
    from p(6) have a: "\<not> length ?pb \<le> ?pp" by simp
    from cg(1) have "\<not> ?g0 \<ge> (?cc + 31) div 32" by (simp add: groups_def)
    with a sg l fz show ?thesis
      by (simp add: alloc_in_segment_def Let_def)
  qed
  \<comment> \<open>the invariant\<close>
  have bits': "\<And>b. b < 32 \<Longrightarrow> bit ?cm' b \<longleftrightarrow> bit ?cm b \<or> b = ?b0"
    by (auto simp: bit_simps)
  have gwspec: "\<forall>g < 32. bit ?gw g \<longleftrightarrow> (if g = ?g0 then (\<forall>b < 32. bit ?cm' b) else bit ?w0 g)"
  proof (intro allI impI)
    fix g :: nat assume g: "g < 32"
    show "bit ?gw g \<longleftrightarrow> (if g = ?g0 then (\<forall>b < 32. bit ?cm' b) else bit ?w0 g)"
    proof (cases "?cm' = - 1")
      case True
      with g show ?thesis by (auto simp: bit_simps all_ones_iff [symmetric])
    next
      case False
      with ng show ?thesis by (auto simp: all_ones_iff [symmetric])
    qed
  qed
  have padspec: "\<forall>b < 32. ?g0 = ?G - 1 \<longrightarrow> ?cc \<le> ?g0 * 32 + b \<longrightarrow> bit ?cm' b"
  proof (intro allI impI)
    fix b :: nat assume b: "b < 32" "?g0 = ?G - 1" "?cc \<le> ?g0 * 32 + b"
    from cg(1) b(2) have idx: "?pp + ?G = ?pp + 1 + ?g0" by linarith
    from b(2,3) have "?cc \<le> (?G - 1) * 32 + b" by simp
    with mi(3) b(1) have "bit (?pb ! (?pp + ?G)) b" by blast
    then have "bit ?cm b" unfolding idx .
    with b(1) show "bit ?cm' b" by (simp add: bit_simps)
  qed
  have wf': "well_formed ?st'"
    by (rule mask_inv_update [OF wf sg cg(1) gwspec padspec])
  define pb' where "pb' = ?pb'"
  define st' where "st' = st\<lparr>pool_buffer := pb'\<rparr>"
  have sel: "pool_buffer st' = pb'" "pool_ptr st' = pool_ptr st"
    by (simp_all add: st'_def)
  have n1: "pb' ! (?pp + 1 + ?g0) = ?cm'"
    using p(6) cg(1) by (simp add: pb'_def)
  have n2: "pb' ! i = ?pb ! i" if "i \<noteq> ?pp" "i \<noteq> ?pp + 1 + ?g0" for i
    using that by (simp add: pb'_def)
  have used': "cell_used st' k c \<longleftrightarrow> cell_used st k c \<or> (k = sg \<and> c = c0)"
    if k: "k < segment_count st" and c: "c < cell_count st ! k" for k c
  proof (cases "k = sg \<and> c div 32 = ?g0")
    case True
    with n1 have "cell_used st' k c \<longleftrightarrow> bit ?cm' (c mod 32)"
      by (simp add: cell_used_def sel)
    also have "\<dots> \<longleftrightarrow> bit ?cm (c mod 32) \<or> c mod 32 = ?b0"
      by (rule bits') simp
    also from True have "bit ?cm (c mod 32) \<longleftrightarrow> cell_used st k c"
      by (simp add: cell_used_def)
    also from True have "c mod 32 = ?b0 \<longleftrightarrow> c = c0"
      using div_mult_mod_eq [of c 32] div_mult_mod_eq [of c0 32] by auto
    finally show ?thesis using True by simp
  next
    case False
    note cgk = cell_group [OF wf_pool(2) [OF wf k] c]
    have "pb' ! (pool_ptr st ! k + 1 + c div 32) = ?pb ! (pool_ptr st ! k + 1 + c div 32)"
    proof (cases "k = sg")
      case True
      with False have "c div 32 \<noteq> ?g0" by simp
      with True show ?thesis by (intro n2) simp_all
    next
      case F3: False
      from cgk(1) have y: "1 + c div 32 \<le> groups (cell_count st ! k)" by simp
      from wf_pools_disjoint [OF wf k sg F3 y, of 0]
      have a: "pool_ptr st ! k + 1 + c div 32 \<noteq> ?pp" by (simp add: add.assoc)
      from cg(1) have "1 + ?g0 \<le> ?G" by simp
      from wf_pools_disjoint [OF wf k sg F3 y this]
      have b: "pool_ptr st ! k + 1 + c div 32 \<noteq> ?pp + 1 + ?g0" by (simp add: add.assoc)
      from a b show ?thesis by (rule n2)
    qed
    then have "cell_used st' k c \<longleftrightarrow> cell_used st k c"
      by (simp add: cell_used_def sel)
    with False show ?thesis by auto
  qed
  have fr: "st' = st\<lparr>pool_buffer := pool_buffer st'\<rparr>"
    by (simp add: st'_def)
  from ais tc wf' have "alloc_in_segment st sg =
            Done (Returns (Some (int (segment_ptr st ! sg + c0 * segment_sizes st ! sg)), st'))" "well_formed st'"
    by (simp_all add: st'_def pb'_def)
  with used' fr show ?thesis
    by blast
qed

subsection \<open>begin establishes the invariant, with every cell free\<close>

lemma fresh_pool:
  fixes pb :: "32 word list"
  assumes cc: "1 \<le> cc" "cc \<le> 992"
    and f1: "pb ! pp = mask_word (groups cc)"
    and f2: "pb ! (pp + groups cc) = mask_word (cc mod 32)"
    and f3: "\<forall>g. g + 1 < groups cc \<longrightarrow> pb ! (pp + 1 + g) = 0"
  shows "\<forall>g < groups cc. bit (pb ! pp) g \<longleftrightarrow> (\<forall>b < 32. bit (pb ! (pp + 1 + g)) b)"
    and "\<forall>g < 32. groups cc \<le> g \<longrightarrow> bit (pb ! pp) g"
    and "\<forall>b < 32. cc \<le> (groups cc - 1) * 32 + b \<longrightarrow> bit (pb ! (pp + groups cc)) b"
    and "\<forall>c < cc. \<not> bit (pb ! (pp + 1 + c div 32)) (c mod 32)"
proof -
  let ?G = "groups cc"
  have G: "1 \<le> ?G" "?G \<le> 31"
    using groups_ge_1 [OF cc(1)] groups_le_31 [OF cc(2)] by simp_all
  have last: "\<not> bit (pb ! (pp + ?G)) 0"
    unfolding f2 by (auto simp: bit_mask_word)
  have w: "\<not> bit (pb ! (pp + 1 + g)) 0" if "g < ?G" for g
  proof (cases "g + 1 < ?G")
    case True
    with f3 show ?thesis by simp
  next
    case False
    with that have e: "pp + 1 + g = pp + ?G" by simp
    show ?thesis unfolding e by (rule last)
  qed
  show "\<forall>g < ?G. bit (pb ! pp) g \<longleftrightarrow> (\<forall>b < 32. bit (pb ! (pp + 1 + g)) b)"
  proof (intro allI impI)
    fix g assume g: "g < ?G"
    with G have "\<not> bit (pb ! pp) g"
      unfolding f1 by (simp add: bit_mask_word)
    moreover from w [OF g] have "\<not> (\<forall>b < 32. bit (pb ! (pp + 1 + g)) b)"
      by (auto intro: exI [of _ 0])
    ultimately show "bit (pb ! pp) g \<longleftrightarrow> (\<forall>b < 32. bit (pb ! (pp + 1 + g)) b)"
      by simp
  qed
  show "\<forall>g < 32. ?G \<le> g \<longrightarrow> bit (pb ! pp) g"
    using G unfolding f1 by (simp add: bit_mask_word)
  show "\<forall>b < 32. cc \<le> (?G - 1) * 32 + b \<longrightarrow> bit (pb ! (pp + ?G)) b"
  proof (intro allI impI)
    fix b :: nat assume b: "b < 32" "cc \<le> (?G - 1) * 32 + b"
    have nz: "cc mod 32 \<noteq> 0"
    proof
      assume "cc mod 32 = 0"
      from groups_mod(2) [OF cc(1) this] b G show False by simp
    qed
    from groups_mod(1) [OF cc(1) nz] b(2) have "cc mod 32 \<le> b" by simp
    with nz b(1) show "bit (pb ! (pp + ?G)) b"
      unfolding f2 by (simp add: bit_mask_word)
  qed
  show "\<forall>c < cc. \<not> bit (pb ! (pp + 1 + c div 32)) (c mod 32)"
  proof (intro allI impI)
    fix c assume c: "c < cc"
    note cg = cell_group [OF cc(1) c]
    show "\<not> bit (pb ! (pp + 1 + c div 32)) (c mod 32)"
    proof (cases "c div 32 + 1 < ?G")
      case True
      with f3 show ?thesis by simp
    next
      case False
      with cg(1) have e: "c div 32 = ?G - 1" "pp + 1 + c div 32 = pp + ?G" by simp_all
      show ?thesis
      proof (cases "cc mod 32 = 0")
        case True
        then show ?thesis unfolding e(2) f2 by (simp add: mask_word_def)
      next
        case nz: False
        have "c = (?G - 1) * 32 + c mod 32"
          using div_mult_mod_eq [of c 32] e(1) by simp
        with groups_mod(1) [OF cc(1) nz] c have "c mod 32 < cc mod 32" by simp
        then show ?thesis unfolding e(2) f2 by (simp add: bit_mask_word)
      qed
    qed
  qed
qed

lemma begin_wf:
  assumes b: "mempool_begin oom st0 segs count = Returns (True, st)"
    and p0: "pool_size st0 = 0"
    and ccs: "\<forall>i < count. 1 \<le> unat (seg_count (segs ! i)) \<and> unat (seg_count (segs ! i)) \<le> 992"
  shows "well_formed st" and "\<forall>k < segment_count st. \<forall>c < cell_count st ! k. \<not> cell_used st k c"
proof -
  from b obtain s1 s2 s4 where c: "0 < count" "count \<le> 64"
    and nz: "sz_of segs 0 \<noteq> 0"
    and tf: "tables_fresh count st0 s1"
    and pl: "place_segments segs count [0..<count] 0 s1 = Returns (True, s2)"
    and im: "init_masks [0..<count] s4 = Returns (True, st)"
    and pb4: "pool_buffer s4 = replicate (pool_size s2) 0"
    and sc: "segment_count st = count"
    and eq: "segment_sizes st = segment_sizes s2" "cell_count st = cell_count s2"
    and len: "length (cell_count st) = count"
      "length (segment_ptr st) = count" "length (pool_ptr st) = count"
      "length (magic_number st) = count" "length (segment_shift st) = count"
    and bs: "buffer_size st = buffer_size s2"
    and pbl: "length (pool_buffer st) = pool_size s2"
    and sp: "\<forall>k < count. segment_ptr st ! k = seg_base (segment_sizes st) (cell_count st) k"
    and pp: "\<forall>k < count. pool_ptr st ! k = pool_base (cell_count st) k"
    and mg: "\<forall>k < count. if not_pow2 (segment_sizes st ! k)
        then magic_number st ! k = (65536 + segment_sizes st ! k div 4 - 1) div (segment_sizes st ! k div 4)
        else segment_shift st ! k = ctz (word_of_nat (segment_sizes st ! k))"
    and e4: "cell_count s4 = cell_count st" "pool_ptr s4 = pool_ptr st"
    by (rule begin_True_fields)
  from ccs have cc992: "\<forall>i < count. unat (seg_count (segs ! i)) \<le> 992" by simp
  note ps = placed_sums [OF tf p0 pl c cc992 nz]
  have cc1: "\<forall>k < count. 1 \<le> cell_count st ! k \<and> cell_count st ! k \<le> 992"
  proof (intro allI impI)
    fix k assume "k < count"
    from begin_values [OF b this] ccs show "1 \<le> cell_count st ! k \<and> cell_count st ! k \<le> 992"
      by auto
  qed
  have lay: "layout_ok st"
    unfolding layout_ok_def sc using len cc1 sp pp mg bs pbl ps(1,2) by (simp add: eq)
  have G: "\<forall>k < count. 1 \<le> groups (cell_count st ! k) \<and> groups (cell_count st ! k) < 32"
  proof (intro allI impI)
    fix k assume "k < count"
    with cc1 have "1 \<le> cell_count st ! k" "cell_count st ! k \<le> 992" by simp_all
    from groups_ge_1 [OF this(1)] groups_le_31 [OF this(2)]
    show "1 \<le> groups (cell_count st ! k) \<and> groups (cell_count st ! k) < 32" by simp
  qed
  have inb: "pool_base (cell_count st) k + groups (cell_count st ! k) < pool_size s2" if "k < count" for k
  proof -
    have "pool_base (cell_count st) k + groups (cell_count st ! k) < pool_base (cell_count st) (Suc k)"
      by simp
    also from that have "\<dots> \<le> pool_base (cell_count st) count"
      by (intro pool_base_le) simp
    finally show ?thesis by (simp add: ps(1) eq)
  qed
  have a2: "\<forall>k\<in>set [0..<count]. 1 \<le> groups (cell_count s4 ! k) \<and> groups (cell_count s4 ! k) < 32
           \<and> pool_ptr s4 ! k + groups (cell_count s4 ! k) < length (pool_buffer s4)"
    using G pp inb by (simp add: e4 pb4)
  have a3: "\<forall>j\<in>set [0..<count]. \<forall>k\<in>set [0..<count]. j \<noteq> k \<longrightarrow>
           pool_ptr s4 ! j + groups (cell_count s4 ! j) < pool_ptr s4 ! k
           \<or> pool_ptr s4 ! k + groups (cell_count s4 ! k) < pool_ptr s4 ! j"
  proof (intro ballI impI)
    fix j k assume jk: "j \<in> set [0..<count]" "k \<in> set [0..<count]" "j \<noteq> k"
    then consider "j < k" | "k < j" by linarith
    then show "pool_ptr s4 ! j + groups (cell_count s4 ! j) < pool_ptr s4 ! k
           \<or> pool_ptr s4 ! k + groups (cell_count s4 ! k) < pool_ptr s4 ! j"
    proof cases
      case 1
      from pool_base_mono [OF this, of "cell_count st"] jk pp show ?thesis by (simp add: e4)
    next
      case 2
      from pool_base_mono [OF this, of "cell_count st"] jk pp show ?thesis by (simp add: e4)
    qed
  qed
  from init_masks_result [OF _ a2 a3] im obtain pb where
    st: "st = s4\<lparr>pool_buffer := pb\<rparr>"
    and vals: "\<forall>k\<in>set [0..<count]. pb ! (pool_ptr s4 ! k) = mask_word (groups (cell_count s4 ! k))
                 \<and> pb ! (pool_ptr s4 ! k + groups (cell_count s4 ! k)) = mask_word (cell_count s4 ! k mod 32)"
    and rest: "\<forall>x. (\<forall>k\<in>set [0..<count]. x \<noteq> pool_ptr s4 ! k \<and> x \<noteq> pool_ptr s4 ! k + groups (cell_count s4 ! k))
                 \<longrightarrow> pb ! x = pool_buffer s4 ! x"
    by auto
  have pbst: "pool_buffer st = pb" by (subst st) simp
  have f12: "pool_buffer st ! (pool_ptr st ! k) = mask_word (groups (cell_count st ! k))"
    "pool_buffer st ! (pool_ptr st ! k + groups (cell_count st ! k)) = mask_word (cell_count st ! k mod 32)"
    if "k < count" for k
    using vals that by (simp_all add: pbst e4)
  have f3: "pool_buffer st ! (pool_ptr st ! k + 1 + g) = 0"
    if k: "k < count" and g: "g + 1 < groups (cell_count st ! k)" for k g
  proof -
    let ?x = "pool_ptr st ! k + 1 + g"
    have "\<forall>j\<in>set [0..<count]. ?x \<noteq> pool_ptr s4 ! j \<and> ?x \<noteq> pool_ptr s4 ! j + groups (cell_count s4 ! j)"
    proof
      fix j assume "j \<in> set [0..<count]"
      then have j: "j < count" by simp
      consider "j = k" | "j < k" | "k < j" by linarith
      then show "?x \<noteq> pool_ptr s4 ! j \<and> ?x \<noteq> pool_ptr s4 ! j + groups (cell_count s4 ! j)"
      proof cases
        case 1
        with g show ?thesis by (simp add: e4)
      next
        case 2
        from pool_base_mono [OF this, of "cell_count st"] j k pp show ?thesis by (simp add: e4)
      next
        case 3
        from pool_base_mono [OF this, of "cell_count st"] j k pp g show ?thesis by (simp add: e4)
      qed
    qed
    with rest have "pb ! ?x = pool_buffer s4 ! ?x" by blast
    also have "\<dots> = 0"
    proof -
      from g have "?x < pool_base (cell_count st) k + groups (cell_count st ! k)"
        using pp k by simp
      with inb [OF k] show ?thesis by (simp add: pb4)
    qed
    finally show ?thesis by (simp add: pbst)
  qed
  have fp: "(\<forall>g < groups (cell_count st ! k). bit (pool_buffer st ! (pool_ptr st ! k)) g
                \<longleftrightarrow> (\<forall>b < 32. bit (pool_buffer st ! (pool_ptr st ! k + 1 + g)) b))
      \<and> (\<forall>g < 32. groups (cell_count st ! k) \<le> g \<longrightarrow> bit (pool_buffer st ! (pool_ptr st ! k)) g)
      \<and> (\<forall>b < 32. cell_count st ! k \<le> (groups (cell_count st ! k) - 1) * 32 + b
            \<longrightarrow> bit (pool_buffer st ! (pool_ptr st ! k + groups (cell_count st ! k))) b)
      \<and> (\<forall>c < cell_count st ! k. \<not> bit (pool_buffer st ! (pool_ptr st ! k + 1 + c div 32)) (c mod 32))"
    if k: "k < count" for k
  proof -
    from cc1 k have c1: "1 \<le> cell_count st ! k" "cell_count st ! k \<le> 992" by simp_all
    from f3 [OF k] have f3': "\<forall>g. g + 1 < groups (cell_count st ! k)
        \<longrightarrow> pool_buffer st ! (pool_ptr st ! k + 1 + g) = 0" by blast
    from fresh_pool [OF c1 f12 [OF k] f3'] show ?thesis by blast
  qed
  have mi: "mask_inv st"
    unfolding mask_inv_def sc using fp by blast
  from begin_tables_ok [OF b] lay mi show "well_formed st" by (simp add: well_formed_def)
  show "\<forall>k < segment_count st. \<forall>c < cell_count st ! k. \<not> cell_used st k c"
    unfolding sc cell_used_def using fp by blast
qed

subsection \<open>alloc on an invariant state\<close>

lemma lookup_segment_first:
  assumes "k < segment_count st" "sz \<le> segment_sizes st ! k" "\<forall>j < k. segment_sizes st ! j < sz"
  shows "lookup_segment st sz = int k"
proof -
  from assms(3) have "\<forall>j < k. \<not> sz \<le> segment_sizes st ! j" by (simp add: not_le)
  from find_first [of k "segment_count st" "\<lambda>i. sz \<le> segment_sizes st ! i", OF assms(1,2) this]
  show ?thesis by (simp add: lookup_segment_def)
qed

lemma round_up_4:
  assumes "4 dvd (s::nat)"
  shows "(sz + 3) div 4 * 4 \<le> s \<longleftrightarrow> sz \<le> s"
proof -
  from assms obtain m where "s = 4 * m" by (auto elim: dvdE)
  then show ?thesis by auto
qed

text \<open>
  A request of 1 to \<open>max_segment_size\<close> bytes resolves to the first segment whose cells
  are large enough, and is served from it.
\<close>

lemma resolve_first:
  assumes t: "tables_ok st" and sz: "1 \<le> sz" "sz \<le> max_segment_size st"
    and k: "k < segment_count st" "sz \<le> segment_sizes st ! k" "\<forall>j < k. segment_sizes st ! j < sz"
  shows "resolve_segment st sz = k"
proof -
  from t have c64: "segment_count st \<le> 64"
    and d4: "\<forall>j < segment_count st. 4 dvd segment_sizes st ! j"
    and lk: "\<forall>i < length (segment_lookup st). segment_lookup st ! i = lookup_segment st ((i + 1) * 4)"
    by (simp_all add: tables_ok_def)
  note b = lookup_index_bounds [OF t sz]
  let ?r = "(sz + 3) div 4 * 4"
  from sz(1) have one: "1 \<le> (sz + 3) div 4" by arith
  then have li: "lookup_index sz = int ((sz + 3) div 4) - 1"
    by (simp add: lookup_index_def SEGMENT_STEP_def SEGMENT_LOG2_def)
  with one have n: "nat (lookup_index sz) + 1 = (sz + 3) div 4" by simp
  from b have "nat (lookup_index sz) < length (segment_lookup st)" by simp
  with lk have "segment_lookup st ! nat (lookup_index sz) = lookup_segment st ((nat (lookup_index sz) + 1) * 4)"
    by blast
  also have "\<dots> = lookup_segment st ?r" by (simp only: n)
  also have "\<dots> = int k"
  proof (rule lookup_segment_first [OF k(1)])
    from d4 k(1) have "4 dvd segment_sizes st ! k" by simp
    from round_up_4 [OF this, of sz] k(2) show "?r \<le> segment_sizes st ! k" by simp
    show "\<forall>j < k. segment_sizes st ! j < ?r"
    proof (intro allI impI)
      fix j assume j: "j < k"
      with d4 k(1) have "4 dvd segment_sizes st ! j" by simp
      from round_up_4 [OF this, of sz] k(3) j show "segment_sizes st ! j < ?r"
        by (simp add: not_le [symmetric])
    qed
  qed
  finally show ?thesis
    using k(1) c64 by (simp add: resolve_segment_def)
qed

lemma alloc_step_resolved:
  assumes t: "tables_ok st" and sz: "1 \<le> sz" "sz \<le> max_segment_size st"
    and k: "k < segment_count st" "sz \<le> segment_sizes st ! k" "\<forall>j < k. segment_sizes st ! j < sz"
  shows "alloc_step st sz = alloc_in_segment st k"
  using resolve_first [OF assms] lookup_index_bounds [OF t sz] sz(2) k(1)
  by (simp add: alloc_step_def)

lemma alloc_Done: "alloc_step st sz = Done r \<Longrightarrow> alloc st sz = Some r"
  by (subst alloc.simps) simp

lemma alloc_Escalate: "alloc_step st sz = Escalate sz' \<Longrightarrow> alloc st sz = alloc st sz'"
  by (subst alloc.simps) simp

subsection \<open>What one call of alloc does\<close>

text \<open>The resolved segment has a free cell: its lowest free cell is marked and returned.\<close>

lemma alloc_free_cell:
  assumes wf: "well_formed st" and sz: "1 \<le> sz" "sz \<le> max_segment_size st"
    and k: "k < segment_count st" "sz \<le> segment_sizes st ! k" "\<forall>j < k. segment_sizes st ! j < sz"
    and c0: "c0 < cell_count st ! k" "\<not> cell_used st k c0" "\<forall>c < c0. cell_used st k c"
  shows "\<exists>st'. alloc st sz = Some (Returns (Some (int (segment_ptr st ! k + c0 * segment_sizes st ! k)), st'))
          \<and> well_formed st'
          \<and> (\<forall>j c. j < segment_count st \<longrightarrow> c < cell_count st ! j \<longrightarrow>
                (cell_used st' j c \<longleftrightarrow> cell_used st j c \<or> (j = k \<and> c = c0)))
          \<and> st' = st\<lparr>pool_buffer := pool_buffer st'\<rparr>"
proof -
  from wf have t: "tables_ok st" by (simp add: well_formed_def)
  from alloc_in_segment_free [OF wf k(1) c0] obtain st' where
    a: "alloc_in_segment st k = Done (Returns (Some (int (segment_ptr st ! k + c0 * segment_sizes st ! k)), st'))"
    and r: "well_formed st'"
      "\<forall>j c. j < segment_count st \<longrightarrow> c < cell_count st ! j \<longrightarrow>
          (cell_used st' j c \<longleftrightarrow> cell_used st j c \<or> (j = k \<and> c = c0))"
      "st' = st\<lparr>pool_buffer := pool_buffer st'\<rparr>"
    by blast
  from alloc_step_resolved [OF t sz k] a
  have "alloc_step st sz = Done (Returns (Some (int (segment_ptr st ! k + c0 * segment_sizes st ! k)), st'))"
    by simp
  from alloc_Done [OF this] r show ?thesis by blast
qed

text \<open>The resolved segment is full: the next segment's size is tried, or the call fails.\<close>

lemma alloc_full:
  assumes wf: "well_formed st" and sz: "1 \<le> sz" "sz \<le> max_segment_size st"
    and k: "k < segment_count st" "sz \<le> segment_sizes st ! k" "\<forall>j < k. segment_sizes st ! j < sz"
    and full: "\<forall>c < cell_count st ! k. cell_used st k c"
  shows "Suc k < segment_count st \<Longrightarrow> alloc st sz = alloc st (segment_sizes st ! Suc k)"
    and "Suc k = segment_count st \<Longrightarrow> alloc st sz = Some (Returns (None, st))"
proof -
  from wf have t: "tables_ok st" by (simp add: well_formed_def)
  note s = alloc_step_resolved [OF t sz k]
  note f = alloc_in_segment_full [OF wf k(1) full]
  show "alloc st sz = alloc st (segment_sizes st ! Suc k)" if "Suc k < segment_count st"
    using that s f by (intro alloc_Escalate) simp
  show "alloc st sz = Some (Returns (None, st))" if "Suc k = segment_count st"
    using that s f by (intro alloc_Done) simp
qed

subsection \<open>Filling a single-segment allocator\<close>

lemma alloc_many_fill:
  assumes "well_formed st" "segment_count st = 1" "segment_sizes st ! 0 = S" "cell_count st ! 0 = N"
    and "\<forall>c < N. cell_used st 0 c \<longleftrightarrow> c < m" "m + n \<le> N"
  shows "\<exists>st'. alloc_many n st S = Some (Returns (map (\<lambda>i. Some (int (i * S))) [m..<m + n], st'))
          \<and> well_formed st' \<and> segment_count st' = 1 \<and> segment_sizes st' ! 0 = S \<and> cell_count st' ! 0 = N
          \<and> max_segment_size st' = max_segment_size st
          \<and> (\<forall>c < N. cell_used st' 0 c \<longleftrightarrow> c < m + n)"
  using assms
proof (induction n arbitrary: st m)
  case 0
  then show ?case by simp
next
  case (Suc n)
  from Suc.prems(1) have t: "tables_ok st" and l: "layout_ok st" by (simp_all add: well_formed_def)
  from t Suc.prems(2,3) have S: "4 \<le> S" "max_segment_size st = S"
    by (auto simp: tables_ok_def)
  from l Suc.prems(2) have sp: "segment_ptr st ! 0 = 0"
    by (simp add: layout_ok_def)
  from Suc.prems(6) have m: "m < N" by simp
  have k: "0 < segment_count st" "S \<le> segment_sizes st ! 0" "\<forall>j < (0::nat). segment_sizes st ! j < S"
    using Suc.prems(2,3) by simp_all
  have c0: "m < cell_count st ! 0" "\<not> cell_used st 0 m" "\<forall>c < m. cell_used st 0 c"
    using Suc.prems(4,5) m by auto
  from S have sz: "1 \<le> S" "S \<le> max_segment_size st" by simp_all
  from alloc_free_cell [OF Suc.prems(1) sz k c0] obtain st1 where
    a: "alloc st S = Some (Returns (Some (int (segment_ptr st ! 0 + m * segment_sizes st ! 0)), st1))"
    and wf1: "well_formed st1"
    and u1: "\<forall>j c. j < segment_count st \<longrightarrow> c < cell_count st ! j \<longrightarrow>
          (cell_used st1 j c \<longleftrightarrow> cell_used st j c \<or> (j = 0 \<and> c = m))"
    and e1: "st1 = st\<lparr>pool_buffer := pool_buffer st1\<rparr>"
    by blast
  have f1: "segment_count st1 = 1" "segment_sizes st1 ! 0 = S" "cell_count st1 ! 0 = N"
    "max_segment_size st1 = max_segment_size st"
    using Suc.prems(2,3,4) by (subst e1, simp)+
  have used1: "\<forall>c < N. cell_used st1 0 c \<longleftrightarrow> c < Suc m"
    using u1 Suc.prems(2,4,5) by auto
  from Suc.prems(6) have "Suc m + n \<le> N" by simp
  from Suc.IH [OF wf1 f1(1,2,3) used1 this] obtain st' where
    r: "alloc_many n st1 S = Some (Returns (map (\<lambda>i. Some (int (i * S))) [Suc m..<Suc m + n], st'))"
    and p: "well_formed st'" "segment_count st' = 1" "segment_sizes st' ! 0 = S" "cell_count st' ! 0 = N"
      "max_segment_size st' = max_segment_size st1"
      "\<forall>c < N. cell_used st' 0 c \<longleftrightarrow> c < Suc m + n"
    by blast
  from a sp Suc.prems(3) have a': "alloc st S = Some (Returns (Some (int (m * S)), st1))" by simp
  have "[m..<m + Suc n] = m # [Suc m..<Suc m + n]"
    by (simp add: upt_rec)
  with a' r have "alloc_many (Suc n) st S
      = Some (Returns (map (\<lambda>i. Some (int (i * S))) [m..<m + Suc n], st'))"
    by simp
  with p f1(4) show ?case by simp
qed

subsection \<open>A pool whose group mask leaves one group free\<close>

lemma mask_not_full: "n < 32 \<Longrightarrow> (mask n :: 32 word) \<noteq> - 1"
  by (auto simp: bit_eq_iff bit_mask_iff intro!: exI [of _ n])

lemma first_zero_mask: "n < 32 \<Longrightarrow> ctz (NOT (mask n :: 32 word)) = n"
  by (rule first_zero_eq(2)) (simp_all add: bit_mask_iff)

lemma set_bit_mask: "set_bit n (mask n :: 32 word) = mask (Suc n)"
  by (rule bit_eqI) (auto simp: bit_simps less_Suc_eq)

lemma mask_32: "(mask 32 :: 32 word) = - 1"
  by (rule bit_eqI) (simp add: bit_simps)

lemma mask_Suc_full: "n < 32 \<Longrightarrow> (mask (Suc n) :: 32 word) = - 1 \<longleftrightarrow> n = 31"
proof
  assume "n < 32" "(mask (Suc n) :: 32 word) = - 1"
  with mask_not_full [of "Suc n"] show "n = 31" by (cases "Suc n < 32") auto
next
  assume "n = 31"
  then show "(mask (Suc n) :: 32 word) = - 1" by (simp add: mask_32)
qed

lemma bit_minus_2: "bit (- 2 :: 32 word) n \<longleftrightarrow> 0 < n \<and> n < 32"
proof -
  have "(- 2 :: 32 word) = push_bit 1 (- 1)" by simp
  then show ?thesis by (simp only: bit_simps) auto
qed

lemma group0: "ctz (NOT (- 2 :: 32 word)) = 0" "set_bit 0 (- 2 :: 32 word) = - 1"
proof -
  show "ctz (NOT (- 2 :: 32 word)) = 0"
    by (rule first_zero_eq(2)) (simp_all add: bit_minus_2)
  show "set_bit 0 (- 2 :: 32 word) = - 1"
    by (rule bit_eqI) (auto simp: bit_set_bit_iff bit_minus_2)
qed

lemma ctz_1: "ctz (1 :: 32 word) = 0"
  using group0(1) by simp

lemma narrow_pool_buffer [simp]:
  "length pb = length (pool_buffer st) \<Longrightarrow> narrow (st\<lparr>pool_buffer := pb\<rparr>) = narrow st"
  by (simp add: narrow_def)

lemma narrow_step:
  assumes "narrow st"
  shows "alloc_step st 4 = alloc_in_segment st 0"
  using assms
  by (simp add: narrow_def alloc_step_def lookup_index_def resolve_segment_def SEGMENT_STEP_def
      SEGMENT_LOG2_def)

lemma narrow_alloc:
  assumes n: "narrow st" and g: "pool_buffer st ! 0 = - 2"
    and c: "pool_buffer st ! 1 = mask i" "i < 32"
  shows "alloc st 4 =
           Some (Returns (Some (int (i * 4)),
             st\<lparr>pool_buffer := (if i = 31 then (pool_buffer st)[1 := - 1, 0 := - 1]
                                  else (pool_buffer st)[1 := mask (Suc i)])\<rparr>))"
proof -
  from n have "1 \<le> cell_count st ! 0" by (simp add: narrow_def)
  then have gr: "\<not> (cell_count st ! 0 + 31) div 32 \<le> 0" by (simp add: div_greater_zero_iff)
  from n have ne: "\<not> length (pool_buffer st) \<le> 0" by (auto simp: narrow_def)
  from n g gr ne have "alloc_in_segment st 0 = Done (take_cell st 0 0)"
    by (simp add: alloc_in_segment_def narrow_def ctz_1)
  moreover from n c have "take_cell st 0 0 =
      Returns (Some (int (i * 4)),
             st\<lparr>pool_buffer := (if i = 31 then (pool_buffer st)[1 := - 1, 0 := - 1]
                                  else (pool_buffer st)[1 := mask (Suc i)])\<rparr>)"
    using g by (simp add: take_cell_def narrow_def mask_not_full first_zero_mask set_bit_mask
        mask_Suc_full mask_32 group0 Let_def)
  ultimately show ?thesis
    using narrow_step [OF n] by (intro alloc_Done) simp
qed

lemma narrow_full:
  assumes n: "narrow st" and g: "pool_buffer st ! 0 = - 1"
  shows "alloc st 4 = Some (Returns (None, st))"
proof -
  from n have "\<not> length (pool_buffer st) \<le> 0" by (auto simp: narrow_def)
  with n g have "alloc_in_segment st 0 = Done (Returns (None, st))"
    by (simp add: alloc_in_segment_def narrow_def)
  with narrow_step [OF n] show ?thesis by (intro alloc_Done) simp
qed

lemma narrow_exhaust:
  assumes "narrow st" "pool_buffer st ! 0 = - 2" "pool_buffer st ! 1 = mask i" "i + k = 31"
  shows "\<exists>st'. alloc_many (k + 2) st 4
           = Some (Returns (map (\<lambda>j. Some (int (j * 4))) [i..<32] @ [None], st'))"
  using assms
proof (induction k arbitrary: st i)
  case 0
  then have i: "i = 31" by simp
  let ?st1 = "st\<lparr>pool_buffer := (pool_buffer st)[1 := - 1, 0 := - 1]\<rparr>"
  from narrow_alloc [OF 0(1,2,3)] i
  have a: "alloc st 4 = Some (Returns (Some (int (31 * 4)), ?st1))" by simp
  from 0(1) have "0 < length (pool_buffer st)" by (auto simp: narrow_def)
  with 0(1) have "narrow ?st1" "pool_buffer ?st1 ! 0 = - 1"
    by simp_all
  from narrow_full [OF this] have b: "alloc ?st1 4 = Some (Returns (None, ?st1))" .
  have "[i..<32] = [31]" unfolding i by (simp add: upt_rec)
  with a b show ?case
    by (simp add: numeral_2_eq_2)
next
  case (Suc k)
  then have i: "i < 31" "i < 32" by simp_all
  let ?st1 = "st\<lparr>pool_buffer := (pool_buffer st)[1 := mask (Suc i)]\<rparr>"
  from narrow_alloc [OF Suc.prems(1,2,3) i(2)] i(1)
  have a: "alloc st 4 = Some (Returns (Some (int (i * 4)), ?st1))" by simp
  from Suc.prems(1) have "1 < length (pool_buffer st)" by (auto simp: narrow_def)
  with Suc.prems(1,2) have p: "narrow ?st1" "pool_buffer ?st1 ! 0 = - 2" "pool_buffer ?st1 ! 1 = mask (Suc i)"
    by simp_all
  from Suc.prems(4) have "Suc i + k = 31" by simp
  from Suc.IH [OF p this] obtain st' where
    r: "alloc_many (k + 2) ?st1 4 = Some (Returns (map (\<lambda>j. Some (int (j * 4))) [Suc i..<32] @ [None], st'))"
    by blast
  from i have "[i..<32] = i # [Suc i..<32]" by (simp add: upt_rec)
  with a r show ?case by simp
qed

subsection \<open>The recovery of the cell index\<close>

lemma ctz_eq:
  fixes w :: "32 word"
  assumes "j < 32" "bit w j" "\<forall>i < j. \<not> bit w i"
  shows "ctz w = j"
proof -
  from assms(2) have nz: "w \<noteq> 0" by auto
  note z = ctz_props [OF nz]
  show ?thesis
  proof (rule ccontr)
    assume "ctz w \<noteq> j"
    then consider "ctz w < j" | "j < ctz w" by linarith
    then show False
    proof cases
      case 1
      with assms(3) z(2) show False by blast
    next
      case 2
      with z(3) assms(2) show False by blast
    qed
  qed
qed

lemma ctz_push_bit_1: "n < 32 \<Longrightarrow> ctz (push_bit n 1 :: 32 word) = n"
  by (rule ctz_eq) (simp_all add: bit_simps)

lemma magic_division:
  fixes u i :: nat
  assumes u: "1 \<le> u" "u \<le> 16" and i: "i < 1024"
  shows "(i * u * ((65536 + u - 1) div u)) mod 2 ^ 32 div 65536 = i"
proof -
  define m where "m = (65536 + u - 1) div u"
  from u have up: "0 < u" by simp
  have "m * u \<le> 65536 + u - 1"
    unfolding m_def by (rule div_times_less_eq_dividend)
  moreover have "65536 + u - 1 < u + m * u"
    unfolding m_def using up by (rule dividend_less_div_times)
  ultimately obtain e where e: "u * m = 65536 + e" "e < u"
    using u by (intro that [of "u * m - 65536"]) (simp_all add: mult.commute)
  have eq: "i * u * m = i * 65536 + i * e"
    using e(1) by (simp add: mult.assoc distrib_left)
  from i e(2) u have ie: "i * e < 1024 * 16"
    by (intro mult_strict_mono) simp_all
  then have small: "i * 65536 + i * e < 2 ^ 32"
    using i by simp
  from ie have "(i * 65536 + i * e) div 65536 = i" by simp
  with small show ?thesis
    unfolding m_def [symmetric] eq by simp
qed

lemma ctz_numerals:
  "ctz (4 :: 32 word) = 2" "ctz (8 :: 32 word) = 3" "ctz (16 :: 32 word) = 4"
  "ctz (32 :: 32 word) = 5" "ctz (64 :: 32 word) = 6"
  using ctz_push_bit_1 [of 2] ctz_push_bit_1 [of 3] ctz_push_bit_1 [of 4] ctz_push_bit_1 [of 5]
    ctz_push_bit_1 [of 6]
  by simp_all

lemma size_cases:
  assumes "4 \<le> S" "S \<le> 64" "4 dvd (S::nat)"
  shows "S \<in> {4, 8, 12, 16, 20, 24, 28, 32, 36, 40, 44, 48, 52, 56, 60, 64}"
proof -
  from assms(3) obtain u where u: "S = 4 * u" by (auto elim: dvdE)
  with assms(1,2) have "1 \<le> u" "u \<le> 16" by simp_all
  then have "u \<in> {1, 2, 3, 4, 5, 6, 7, 8, 9, 10, 11, 12, 13, 14, 15, 16}" by simp presburger
  with u show ?thesis by auto
qed

text \<open>A stored size that passes the power-of-two test is 2 to the stored shift.\<close>

lemma pow2_shift:
  assumes "4 \<le> S" "S \<le> 64" "4 dvd (S::nat)" "\<not> not_pow2 S"
  shows "ctz (word_of_nat S :: 32 word) < 32 \<and> S = 2 ^ ctz (word_of_nat S :: 32 word)"
  using size_cases [OF assms(1,2,3)] assms(4)
  by (auto simp: not_pow2_def ctz_numerals)

lemma cell_index_of_cell:
  assumes wf: "well_formed st" and k: "k < segment_count st" and i: "i < cell_count st ! k"
  shows "cell_index_of st k (i * segment_sizes st ! k) = i mod 256"
    and "\<not> not_pow2 (segment_sizes st ! k) \<Longrightarrow> segment_shift st ! k < 32"
proof -
  let ?S = "segment_sizes st ! k"
  from wf k have S: "4 \<le> ?S" "?S \<le> 64" "4 dvd ?S"
    by (simp_all add: well_formed_def tables_ok_def)
  from wf k have dv: "if not_pow2 ?S
            then magic_number st ! k = (65536 + ?S div 4 - 1) div (?S div 4)
            else segment_shift st ! k = ctz (word_of_nat ?S)"
    by (simp add: well_formed_def layout_ok_def)
  from wf_pool(3) [OF wf k] i have i992: "i < 992" by simp
  with S(1,2) have "i * ?S < 992 * 64"
    by (intro mult_less_le_imp_less) simp_all
  then have off: "(i * ?S) mod 65536 = i * ?S" by simp
  show "\<not> not_pow2 ?S \<Longrightarrow> segment_shift st ! k < 32"
    using dv pow2_shift [OF S] by simp
  show "cell_index_of st k (i * ?S) = i mod 256"
  proof (cases "not_pow2 ?S")
    case True
    from S(3) obtain u where u: "?S = 4 * u" by (auto elim: dvdE)
    with S(1,2) have ub: "1 \<le> u" "u \<le> 16" by simp_all
    from i992 have "i < 1024" by simp
    from magic_division [OF ub this] True dv u off show ?thesis
      by (simp add: cell_index_of_def Let_def mult.assoc mult.left_commute)
  next
    case False
    from pow2_shift [OF S False] dv False
    have sh: "?S = 2 ^ (segment_shift st ! k)" by simp
    have "(i * ?S) div 2 ^ (segment_shift st ! k) = i"
      by (subst (1) sh) simp
    with False off show ?thesis
      by (simp add: cell_index_of_def Let_def)
  qed
qed

subsection \<open>The binary search of release\<close>

lemma seg_base_le: "j \<le> k \<Longrightarrow> seg_base szs cc j \<le> seg_base szs cc k"
  by (induction k) (auto simp: le_Suc_eq)

text \<open>
  Over base addresses in ascending order, the first of them not above \<open>p\<close>, the search
  returns the last segment whose base is not above \<open>p\<close>.
\<close>

lemma release_search_spec:
  fixes p :: int
  assumes n: "length (segment_ptr st) = n" "n \<le> 64"
    and mono: "\<forall>i j. i \<le> j \<longrightarrow> j < n \<longrightarrow> segment_ptr st ! i \<le> segment_ptr st ! j"
    and p0: "int (segment_ptr st ! 0) \<le> p"
  shows "l \<le> r + 1 \<Longrightarrow> r < n \<Longrightarrow> \<forall>j < l. int (segment_ptr st ! j) \<le> p \<Longrightarrow>
         \<forall>j. r < j \<longrightarrow> j < n \<longrightarrow> p < int (segment_ptr st ! j) \<Longrightarrow> sg = int l - 1 \<Longrightarrow>
         \<exists>k. release_search st p l r sg = Some (Returns (int k)) \<and> k < n
            \<and> int (segment_ptr st ! k) \<le> p \<and> (\<forall>j. k < j \<longrightarrow> j < n \<longrightarrow> p < int (segment_ptr st ! j))"
proof (induction "r + 1 - l" arbitrary: l r sg rule: less_induct)
  case less
  show ?case
  proof (cases "l \<le> r")
    case False
    with less.prems(1) have lr: "l = r + 1" by simp
    from False have "release_search st p l r sg = Some (Returns sg)"
      by (subst release_search.simps) simp
    moreover from lr less.prems(5) have "sg = int r" by simp
    moreover from less.prems(3) lr have "int (segment_ptr st ! r) \<le> p" by simp
    ultimately show ?thesis using less.prems(2,4) by blast
  next
    case True
    define m where "m = (l + r) div 2"
    from True have lm: "l \<le> m" "m \<le> r" by (simp_all add: m_def)
    with less.prems(2) n have mn: "m < n" "m < 64" by simp_all
    then have mm: "((l + r) div 2) mod 256 = m" by (simp add: m_def)
    from mn n have len: "\<not> length (segment_ptr st) \<le> m" by simp
    show ?thesis
    proof (cases "p < int (segment_ptr st ! m)")
      case lt: True
      with p0 have m0: "m \<noteq> 0" by (cases "m = 0") auto
      with mn have r': "(m + 255) mod 256 = m - 1" by (simp add: mod_if)
      from True lt len have step: "release_search st p l r sg = release_search st p l (m - 1) sg"
        by (subst release_search.simps) (simp add: Let_def mm r')
      have a: "m - 1 + 1 - l < r + 1 - l" using lm m0 by simp
      have b: "l \<le> m - 1 + 1" using lm m0 by simp
      have c: "m - 1 < n" using mn by simp
      have d: "\<forall>j. m - 1 < j \<longrightarrow> j < n \<longrightarrow> p < int (segment_ptr st ! j)"
      proof (intro allI impI)
        fix j assume j: "m - 1 < j" "j < n"
        with m0 have "m \<le> j" by simp
        with mono j(2) have "segment_ptr st ! m \<le> segment_ptr st ! j" by blast
        with lt show "p < int (segment_ptr st ! j)" by simp
      qed
      from less.hyps [OF a b c less.prems(3) d less.prems(5)] step show ?thesis by simp
    next
      case ge: False
      from mn have l': "(m + 1) mod 256 = m + 1" by simp
      from True ge len mn have step: "release_search st p l r sg = release_search st p (m + 1) r (int m)"
        by (subst release_search.simps) (simp add: Let_def mm l')
      have a: "r + 1 - (m + 1) < r + 1 - l" using lm by simp
      have b: "m + 1 \<le> r + 1" using lm by simp
      have c: "\<forall>j < m + 1. int (segment_ptr st ! j) \<le> p"
      proof (intro allI impI)
        fix j assume "j < m + 1"
        then have "j \<le> m" by simp
        with mono mn(1) have "segment_ptr st ! j \<le> segment_ptr st ! m" by blast
        with ge show "int (segment_ptr st ! j) \<le> p" by simp
      qed
      have d: "int m = int (m + 1) - 1" by simp
      from less.hyps [OF a b less.prems(2) c less.prems(4) d] step show ?thesis by simp
    qed
  qed
qed

subsection \<open>What release does to a cell's address\<close>

lemma cell_used_update:
  assumes wf: "well_formed st" and sg: "sg < segment_count st"
    and g0: "g0 < groups (cell_count st ! sg)"
    and k: "k < segment_count st" and c: "c < cell_count st ! k"
  shows "cell_used (st\<lparr>pool_buffer := (pool_buffer st)[pool_ptr st ! sg + 1 + g0 := cw, pool_ptr st ! sg := gw]\<rparr>) k c
           \<longleftrightarrow> (if k = sg \<and> c div 32 = g0 then bit cw (c mod 32) else cell_used st k c)"
proof -
  let ?pb = "pool_buffer st"
  let ?pp = "pool_ptr st ! sg"
  let ?G = "groups (cell_count st ! sg)"
  define pb' where "pb' = ?pb[?pp + 1 + g0 := cw, ?pp := gw]"
  define st' where "st' = st\<lparr>pool_buffer := pb'\<rparr>"
  note p = wf_pool [OF wf sg]
  have sel: "pool_buffer st' = pb'" "pool_ptr st' = pool_ptr st"
    by (simp_all add: st'_def)
  have n1: "pb' ! (?pp + 1 + g0) = cw"
    using p(6) g0 by (simp add: pb'_def)
  have n2: "pb' ! i = ?pb ! i" if "i \<noteq> ?pp" "i \<noteq> ?pp + 1 + g0" for i
    using that by (simp add: pb'_def)
  have "cell_used st' k c \<longleftrightarrow> (if k = sg \<and> c div 32 = g0 then bit cw (c mod 32) else cell_used st k c)"
  proof (cases "k = sg \<and> c div 32 = g0")
    case True
    with n1 show ?thesis by (simp add: cell_used_def sel)
  next
    case False
    note cgk = cell_group [OF wf_pool(2) [OF wf k] c]
    have "pb' ! (pool_ptr st ! k + 1 + c div 32) = ?pb ! (pool_ptr st ! k + 1 + c div 32)"
    proof (cases "k = sg")
      case True
      with False have "c div 32 \<noteq> g0" by simp
      with True show ?thesis by (intro n2) simp_all
    next
      case F3: False
      from cgk(1) have y: "1 + c div 32 \<le> groups (cell_count st ! k)" by simp
      from wf_pools_disjoint [OF wf k sg F3 y, of 0]
      have a: "pool_ptr st ! k + 1 + c div 32 \<noteq> ?pp" by (simp add: add.assoc)
      from g0 have "1 + g0 \<le> ?G" by simp
      from wf_pools_disjoint [OF wf k sg F3 y this]
      have b: "pool_ptr st ! k + 1 + c div 32 \<noteq> ?pp + 1 + g0" by (simp add: add.assoc)
      from a b show ?thesis by (rule n2)
    qed
    then have "cell_used st' k c \<longleftrightarrow> cell_used st k c"
      by (simp add: cell_used_def sel)
    with False show ?thesis by auto
  qed
  then show ?thesis by (simp add: st'_def pb'_def)
qed

text \<open>The search finds the segment a cell's address lies in.\<close>

lemma release_search_cell:
  assumes wf: "well_formed st" and k: "k < segment_count st" and i: "i < cell_count st ! k"
  shows "release_search st (int (segment_ptr st ! k + i * segment_sizes st ! k)) 0
           ((segment_count st + 255) mod 256) (- 1) = Some (Returns (int k))"
    and "int (segment_ptr st ! k + i * segment_sizes st ! k) < int (buffer_size st)"
proof -
  let ?n = "segment_count st"
  let ?sp = "segment_ptr st"
  let ?p = "?sp ! k + i * segment_sizes st ! k"
  let ?sb = "seg_base (segment_sizes st) (cell_count st)"
  from wf have t: "tables_ok st" and l: "layout_ok st" by (simp_all add: well_formed_def)
  from t have n: "1 \<le> ?n" "?n \<le> 64" by (simp_all add: tables_ok_def)
  from l have sp: "\<forall>j < ?n. ?sp ! j = ?sb j" and bs: "buffer_size st = ?sb ?n"
    by (simp_all add: layout_ok_def)
  from t k have S: "4 \<le> segment_sizes st ! k" by (simp add: tables_ok_def)
  from i S have "i * segment_sizes st ! k < cell_count st ! k * segment_sizes st ! k"
    by (intro mult_strict_right_mono) simp_all
  then have nxt: "?p < ?sb (Suc k)"
    using sp k by (simp add: mult.commute)
  from k have "?sb (Suc k) \<le> ?sb ?n" by (intro seg_base_le) simp
  with nxt have "?p < buffer_size st" by (simp only: bs)
  then show "int ?p < int (buffer_size st)" by (simp only: of_nat_less_iff)
  have mono: "\<forall>a b. a \<le> b \<longrightarrow> b < ?n \<longrightarrow> ?sp ! a \<le> ?sp ! b"
    using sp seg_base_le [of _ _ "segment_sizes st" "cell_count st"] by auto
  from n sp have p0: "int (?sp ! 0) \<le> int ?p" by simp
  from n have r: "(?n + 255) mod 256 = ?n - 1" by (simp add: mod_if)
  have "\<exists>k'. release_search st (int ?p) 0 (?n - 1) (- 1) = Some (Returns (int k')) \<and> k' < ?n
            \<and> int (?sp ! k') \<le> int ?p \<and> (\<forall>j. k' < j \<longrightarrow> j < ?n \<longrightarrow> int ?p < int (?sp ! j))"
  proof (rule release_search_spec [OF wf_lengths(3) [OF wf] n(2) mono p0])
    show "0 \<le> ?n - 1 + 1" by simp
    from n show "?n - 1 < ?n" by simp
    show "\<forall>j < 0. int (?sp ! j) \<le> int ?p" by simp
    show "\<forall>j. ?n - 1 < j \<longrightarrow> j < ?n \<longrightarrow> int ?p < int (?sp ! j)" by auto
    show "- 1 = int 0 - 1" by simp
  qed
  then obtain k' where res: "release_search st (int ?p) 0 (?n - 1) (- 1) = Some (Returns (int k'))"
    and kn: "k' < ?n"
    and ki: "int (?sp ! k') \<le> int ?p" "\<forall>j. k' < j \<longrightarrow> j < ?n \<longrightarrow> int ?p < int (?sp ! j)"
    by blast
  from kn ki have k': "k' < ?n" "?sp ! k' \<le> ?p" "\<forall>j. k' < j \<longrightarrow> j < ?n \<longrightarrow> ?p < ?sp ! j"
    by (simp_all only: of_nat_le_iff of_nat_less_iff)
  have "k' = k"
  proof (rule ccontr)
    assume "k' \<noteq> k"
    then consider "k' < k" | "k < k'" by linarith
    then show False
    proof cases
      case 1
      with k'(3) k have "?p < ?sp ! k" by blast
      then show False by simp
    next
      case 2
      then have "Suc k \<le> k'" by simp
      with mono k'(1) have "?sp ! Suc k \<le> ?sp ! k'" by blast
      moreover from 2 k'(1) sp have "?sp ! Suc k = ?sb (Suc k)" by simp
      ultimately show False using nxt k'(2) by simp
    qed
  qed
  with res show "release_search st (int ?p) 0 ((?n + 255) mod 256) (- 1) = Some (Returns (int k))"
    by (simp add: r)
qed

text \<open>
  \<open>release\<close> of the address of cell \<open>i\<close> of segment \<open>k\<close> clears the bits of cell \<open>i mod 256\<close>
  of that segment, and keeps the invariant.
\<close>

lemma release_cell_address:
  assumes wf: "well_formed st" and k: "k < segment_count st" and i: "i < cell_count st ! k"
  shows "\<exists>st'. release st (Some (int (segment_ptr st ! k + i * segment_sizes st ! k))) = Some (Returns st')
          \<and> well_formed st'
          \<and> (\<forall>j c. j < segment_count st \<longrightarrow> c < cell_count st ! j \<longrightarrow>
                (cell_used st' j c \<longleftrightarrow> cell_used st j c \<and> \<not> (j = k \<and> c = i mod 256)))
          \<and> st' = st\<lparr>pool_buffer := pool_buffer st'\<rparr>"
proof -
  let ?pb = "pool_buffer st"
  let ?pp = "pool_ptr st ! k"
  let ?cc = "cell_count st ! k"
  let ?G = "groups ?cc"
  let ?S = "segment_sizes st ! k"
  let ?p = "int (segment_ptr st ! k + i * ?S)"
  let ?c = "i mod 256"
  let ?g0 = "?c div 32"
  let ?b0 = "?c mod 32"
  let ?w0 = "?pb ! ?pp"
  let ?cm = "?pb ! (?pp + 1 + ?g0)"
  let ?gw = "unset_bit ?g0 ?w0"
  let ?cw = "unset_bit ?b0 ?cm"
  let ?pb' = "?pb[?pp + 1 + ?g0 := ?cw, ?pp := ?gw]"
  let ?st' = "st\<lparr>pool_buffer := ?pb'\<rparr>"
  note p = wf_pool [OF wf k]
  note l = wf_lengths [OF wf]
  from wf have t: "tables_ok st" by (simp add: well_formed_def)
  then have ini: "initialized st" by (simp add: tables_ok_def)
  from i have c: "?c < ?cc" by (rule le_less_trans [OF mod_less_eq_dividend])
  note cg = cell_group [OF p(2) c]
  from wf k have mi:
    "\<forall>b < 32. ?cc \<le> (?G - 1) * 32 + b \<longrightarrow> bit (?pb ! (?pp + ?G)) b"
    unfolding well_formed_def mask_inv_def by blast
  note rs = release_search_cell [OF wf k i]
  note ci = cell_index_of_cell [OF wf k i]
  have off: "nat (?p - int (segment_ptr st ! k)) = i * ?S" by (simp add: nat_mult_distrib)
  have rc: "release_cell st k ?p = Returns ?st'"
  proof -
    from p(6) cg(1) have a: "\<not> length ?pb \<le> ?pp + ?g0 + 1" by simp
    have b: "(?pb[?pp := ?gw]) ! (?pp + ?g0 + 1) = ?cm"
      by (simp add: add.commute add.left_commute)
    have sw: "?pb[?pp := ?gw, ?pp + ?g0 + 1 := ?cw] = ?pb'"
      by (subst list_update_swap) (simp_all add: add.commute add.left_commute)
    from k l ci(2) have g: "\<not> (length (segment_ptr st) \<le> k \<or> length (segment_sizes st) \<le> k)"
      "\<not> (not_pow2 ?S \<and> length (magic_number st) \<le> k)"
      "\<not> (\<not> not_pow2 ?S \<and> (length (segment_shift st) \<le> k \<or> 32 \<le> segment_shift st ! k))"
      "\<not> length (pool_ptr st) \<le> k"
      by auto
    show ?thesis
      unfolding release_cell_def Let_def off ci(1)
      using a g by (simp only: if_False b sw)
  qed
  define q where "q = ?p"
  have "0 \<le> q" unfolding q_def by (rule of_nat_0_le_iff)
  with rs ini rc have "release st (Some q) = Some (Returns ?st')"
    unfolding release_def q_def [symmetric] by simp
  then have rel: "release st (Some ?p) = Some (Returns ?st')"
    unfolding q_def .
  have bits: "\<And>b. bit ?cw b \<longleftrightarrow> bit ?cm b \<and> b \<noteq> ?b0"
    by (auto simp: bit_simps)
  have "\<not> bit ?cw ?b0" by (simp add: bit_simps)
  with cg(2) have ncw: "\<not> (\<forall>b < 32. bit ?cw b)" by blast
  have gwspec: "\<forall>g < 32. bit ?gw g \<longleftrightarrow> (if g = ?g0 then (\<forall>b < 32. bit ?cw b) else bit ?w0 g)"
    using ncw by (auto simp: bit_simps)
  have padspec: "\<forall>b < 32. ?g0 = ?G - 1 \<longrightarrow> ?cc \<le> ?g0 * 32 + b \<longrightarrow> bit ?cw b"
  proof (intro allI impI)
    fix b :: nat assume b: "b < 32" "?g0 = ?G - 1" "?cc \<le> ?g0 * 32 + b"
    from cg(1) b(2) have idx: "?pp + ?G = ?pp + 1 + ?g0" by linarith
    from b(2,3) have "?cc \<le> (?G - 1) * 32 + b" by simp
    with mi b(1) have "bit (?pb ! (?pp + ?G)) b" by blast
    then have "bit ?cm b" unfolding idx .
    moreover have "b \<noteq> ?b0"
    proof
      assume "b = ?b0"
      with b(3) have "?cc \<le> ?g0 * 32 + ?b0" by simp
      with c show False by simp
    qed
    moreover note bits [of b]
    ultimately show "bit ?cw b" by blast
  qed
  have wf': "well_formed ?st'"
    by (rule mask_inv_update [OF wf k cg(1) gwspec padspec])
  have used': "cell_used ?st' j x \<longleftrightarrow> cell_used st j x \<and> \<not> (j = k \<and> x = ?c)"
    if j: "j < segment_count st" and x: "x < cell_count st ! j" for j x
  proof (cases "j = k \<and> x div 32 = ?g0")
    case True
    have "cell_used ?st' j x \<longleftrightarrow> bit ?cw (x mod 32)"
      using cell_used_update [OF wf k cg(1) j x, of ?cw ?gw] unfolding if_P [OF True] .
    also have "\<dots> \<longleftrightarrow> bit ?cm (x mod 32) \<and> x mod 32 \<noteq> ?b0" by (rule bits)
    also from True have "bit ?cm (x mod 32) \<longleftrightarrow> cell_used st j x"
      by (simp add: cell_used_def)
    also from True have "x mod 32 \<noteq> ?b0 \<longleftrightarrow> x \<noteq> ?c"
      using div_mult_mod_eq [of x 32] div_mult_mod_eq [of ?c 32] by auto
    finally show ?thesis using True by simp
  next
    case False
    have "cell_used ?st' j x \<longleftrightarrow> cell_used st j x"
      using cell_used_update [OF wf k cg(1) j x, of ?cw ?gw] unfolding if_not_P [OF False] .
    with False show ?thesis by auto
  qed
  define st' where "st' = ?st'"
  have fr: "st' = st\<lparr>pool_buffer := pool_buffer st'\<rparr>"
    by (simp add: st'_def)
  from rel wf' used' have "release st (Some ?p) = Some (Returns st')" "well_formed st'"
    "\<forall>j c. j < segment_count st \<longrightarrow> c < cell_count st ! j \<longrightarrow>
        (cell_used st' j c \<longleftrightarrow> cell_used st j c \<and> \<not> (j = k \<and> c = i mod 256))"
    unfolding st'_def by blast+
  with fr show ?thesis by blast
qed

section \<open>C1: a failed begin, and clean, leave the object marked initialized\<close>

text \<open>
  C1 says that a failed \<open>begin\<close> and \<open>clean\<close> both leave the object uninitialized, so that
  a later \<open>begin\<close> is permitted. In the source \<open>clean\<close> only deletes the arrays: it does not
  reset \<open>_initialized\<close> (nor the pointers), and \<open>begin\<close> sets \<open>_initialized = true\<close> before
  it validates the descriptors. So a \<open>begin\<close> that fails on a zero-sized descriptor returns
  \<open>false\<close> with \<open>_initialized\<close> still true, and the next \<open>begin\<close>, with a valid descriptor, is
  rejected by the already-initialized guard.
\<close>

theorem failed_begin_blocks_next_begin:
  "fails (mempool_begin (\<lambda>_. False) mempool_new [\<lparr>seg_count = 1, seg_size = 0\<rparr>] 1)
   \<and> initialized (state_of (mempool_begin (\<lambda>_. False) mempool_new [\<lparr>seg_count = 1, seg_size = 0\<rparr>] 1))
   \<and> fails (mempool_begin (\<lambda>_. False)
              (state_of (mempool_begin (\<lambda>_. False) mempool_new [\<lparr>seg_count = 1, seg_size = 0\<rparr>] 1))
              [\<lparr>seg_count = 1, seg_size = 1\<rparr>] 1)"
  by (simp add: begin_defs mempool_new_def upt_rec)

section \<open>C3: duplicate sizes are stored twice\<close>

text \<open>
  C3 says that the stored sizes are strictly increasing after every successful \<open>begin\<close>,
  duplicate sizes included. \<open>_get_next_segment\<close> returns index 0 when no size is above the
  last one placed, so with two descriptors of size 1 the second slot gets the size of
  descriptor 0 again: \<open>begin\<close> succeeds and the table is \<open>[4, 4]\<close>.
\<close>

theorem duplicate_sizes_not_increasing:
  "succeeds (mempool_begin (\<lambda>_. False) mempool_new
      [\<lparr>seg_count = 1, seg_size = 1\<rparr>, \<lparr>seg_count = 1, seg_size = 1\<rparr>] 2)
   \<and> segment_sizes (state_of (mempool_begin (\<lambda>_. False) mempool_new
      [\<lparr>seg_count = 1, seg_size = 1\<rparr>, \<lparr>seg_count = 1, seg_size = 1\<rparr>] 2)) = [4, 4]
   \<and> \<not> sorted_wrt (<) (segment_sizes (state_of (mempool_begin (\<lambda>_. False) mempool_new
      [\<lparr>seg_count = 1, seg_size = 1\<rparr>, \<lparr>seg_count = 1, seg_size = 1\<rparr>] 2)))"
proof -
  let ?segs = "[\<lparr>seg_count = 1, seg_size = 1\<rparr>, \<lparr>seg_count = 1, seg_size = 1\<rparr>]"
  have "\<exists>st. mempool_begin (\<lambda>_. False) mempool_new ?segs 2 = Returns (True, st)"
    by (rule begin_succeeds) (simp_all add: all_less_2)
  then obtain st where b: "mempool_begin (\<lambda>_. False) mempool_new ?segs 2 = Returns (True, st)"
    by blast
  from b obtain s1 s2 where tf: "tables_fresh 2 mempool_new s1"
    and pl: "place_segments ?segs 2 [0..<2] 0 s1 = Returns (True, s2)"
    and eq: "segment_sizes st = segment_sizes s2"
    by (rule begin_True_fields)
  have u: "[0..<2] = [0, 1]" by (simp add: upt_rec)
  have g: "get_next_segment ?segs 2 0 = 0" "get_next_segment ?segs 2 1 = 0"
    by (simp_all add: get_next_segment_def numeral_2_eq_2)
  note t1 = place_segments_Cons_True [OF pl [unfolded u]]
  from t1(5) have p1: "place_segments ?segs 2 [1] 1 (place_one ?segs 0 0 s1) = Returns (True, s2)"
    unfolding g by simp
  note t2 = place_segments_Cons_True [OF p1]
  from t2(5) have "s2 = place_one ?segs 1 0 (place_one ?segs 0 0 s1)"
    unfolding g by simp
  with tf have "segment_sizes st = [4, 4]"
    unfolding eq tables_fresh_def by (simp add: place_one_def numeral_2_eq_2)
  with b show ?thesis
    by (simp add: succeeds_def state_of_def)
qed

section \<open>C9: the lookup index is inside the table for sizes from 1 up\<close>

text \<open>
  C9: on an initialized allocator, for every request size between 1 and the largest
  segment size, the index \<open>((size + STEP - 1) >> LOG2) - 1\<close> that \<open>alloc\<close> uses lies inside
  the lookup table. For size 0 the index is -1 and the read is outside the table.
\<close>

theorem lookup_index_in_table:
  assumes "reachable st"
  shows "(1 \<le> sz \<and> sz \<le> max_segment_size st
            \<longrightarrow> 0 \<le> lookup_index sz \<and> lookup_index sz < int (length (segment_lookup st)))
         \<and> lookup_index 0 = - 1 \<and> alloc st 0 = Some Undefined"
  using lookup_index_bounds [OF reachable_tables_ok [OF assms], of sz] lookup_index_0 alloc_0
  by simp

theorem lookup_index_in_table_witness:
  "reachable scenario \<and> 1 \<le> (16::nat) \<and> 16 \<le> max_segment_size scenario
   \<and> 0 \<le> lookup_index 16 \<and> lookup_index 16 < int (length (segment_lookup scenario))
   \<and> alloc scenario 0 = Some Undefined"
proof -
  from reachable_tables_ok [OF scenario_reachable]
  have "max_segment_size scenario = segment_sizes scenario ! (segment_count scenario - 1)"
    "length (segment_sizes scenario) = segment_count scenario"
    by (simp_all add: tables_ok_def)
  then have m: "max_segment_size scenario = 16"
    by (simp add: scenario_tables)
  with lookup_index_in_table [OF scenario_reachable, of 16] scenario_reachable
  show ?thesis by simp
qed

section \<open>C10: with strictly increasing sizes every alloc call returns\<close>

text \<open>
  C10: on an initialized allocator whose stored sizes are strictly increasing, every call
  of \<open>alloc\<close> returns, and the number of nested activations is at most the number of
  segments: an escalation re-enters \<open>alloc\<close> with the next segment's size, which resolves
  to the next index.
\<close>

theorem alloc_terminates_when_sorted:
  assumes "reachable st" "sorted_wrt (<) (segment_sizes st)"
  shows "\<exists>r. alloc_bounded (segment_count st) st sz = Some r \<and> alloc st sz = Some r"
  using alloc_terminates [OF reachable_tables_ok [OF assms(1)] assms(2)] .

theorem alloc_terminates_when_sorted_witness:
  "reachable scenario \<and> sorted_wrt (<) (segment_sizes scenario)
   \<and> (\<exists>r. alloc_bounded (segment_count scenario) scenario 3 = Some r \<and> alloc scenario 3 = Some r)"
proof -
  have s: "sorted_wrt (<) (segment_sizes scenario)"
    by (simp add: scenario_tables)
  from alloc_terminates_when_sorted [OF scenario_reachable s, of 3] scenario_reachable s
  show ?thesis by simp
qed

subsection \<open>A single segment\<close>

lemma single_begin:
  assumes "1 \<le> N" "N \<le> 992" "1 \<le> u" "u \<le> 16"
  obtains st where
    "mempool_begin (\<lambda>_. False) mempool_new [\<lparr>seg_count = word_of_nat N, seg_size = word_of_nat u\<rparr>] 1
       = Returns (True, st)"
    "well_formed st" "segment_count st = 1" "segment_sizes st ! 0 = u * 4" "cell_count st ! 0 = N"
    "buffer_size st = N * (u * 4)" "\<forall>c < N. \<not> cell_used st 0 c"
proof -
  let ?segs = "[\<lparr>seg_count = word_of_nat N :: 16 word, seg_size = word_of_nat u :: 8 word\<rparr>]"
  from assms have un: "unat (word_of_nat N :: 16 word) = N" "unat (word_of_nat u :: 8 word) = u"
    by (simp_all add: unsigned_of_nat take_bit_nat_eq_self)
  have "\<exists>st. mempool_begin (\<lambda>_. False) mempool_new ?segs 1 = Returns (True, st)"
    by (rule begin_succeeds) (use assms un in simp_all)
  then obtain st where b: "mempool_begin (\<lambda>_. False) mempool_new ?segs 1 = Returns (True, st)"
    by blast
  have "\<forall>i < (1::nat). 1 \<le> unat (seg_count (?segs ! i)) \<and> unat (seg_count (?segs ! i)) \<le> 992"
    using assms un by simp
  from begin_wf [OF b _ this] have wf: "well_formed st"
    and free: "\<forall>k < segment_count st. \<forall>c < cell_count st ! k. \<not> cell_used st k c"
    by simp_all
  from b have sc: "segment_count st = 1"
    by (rule begin_True_fields)
  from begin_values [OF b, of 0] un
  have v: "segment_sizes st ! 0 = u * 4" "cell_count st ! 0 = N"
    by auto
  from wf have "layout_ok st" by (simp add: well_formed_def)
  with sc v have bs: "buffer_size st = N * (u * 4)"
    by (simp add: layout_ok_def)
  from free sc v have "\<forall>c < N. \<not> cell_used st 0 c" by simp
  with b wf sc v bs show thesis by (rule that)
qed

text \<open>
  C6, for a segment of 1 to 992 cells of 1 to 16 units: after \<open>begin\<close>, \<open>N\<close> consecutive calls
  \<open>alloc(S)\<close> return the addresses \<open>0, S, 2 S, \<dots>, (N - 1) S\<close>, the cells at which lie inside the
  arena and do not overlap, and the next call returns null.
\<close>

theorem single_segment_exhaustive:
  assumes "1 \<le> N" "N \<le> 992" "1 \<le> u" "u \<le> 16"
  shows "\<exists>st ps st'.
           mempool_begin (\<lambda>_. False) mempool_new
             [\<lparr>seg_count = word_of_nat N, seg_size = word_of_nat u\<rparr>] 1 = Returns (True, st)
         \<and> alloc_many N st (u * 4) = Some (Returns (map Some ps, st'))
         \<and> ps = map (\<lambda>i. int (i * (u * 4))) [0..<N]
         \<and> (\<forall>i < N. 0 \<le> ps ! i \<and> ps ! i + int (u * 4) \<le> int (buffer_size st))
         \<and> (\<forall>i < N. \<forall>j < N. i < j \<longrightarrow> ps ! i + int (u * 4) \<le> ps ! j)
         \<and> alloc st' (u * 4) = Some (Returns (None, st'))"
proof -
  let ?S = "u * 4"
  let ?ps = "map (\<lambda>i. int (i * ?S)) [0..<N]"
  from assms obtain st where
    b: "mempool_begin (\<lambda>_. False) mempool_new [\<lparr>seg_count = word_of_nat N, seg_size = word_of_nat u\<rparr>] 1
       = Returns (True, st)"
    and s: "well_formed st" "segment_count st = 1" "segment_sizes st ! 0 = ?S" "cell_count st ! 0 = N"
    and bs: "buffer_size st = N * ?S"
    and free: "\<forall>c < N. \<not> cell_used st 0 c"
    by (rule single_begin)
  from free have u0: "\<forall>c < N. cell_used st 0 c \<longleftrightarrow> c < 0" by simp
  from alloc_many_fill [OF s u0, of N] obtain st' where
    a: "alloc_many N st ?S = Some (Returns (map (\<lambda>i. Some (int (i * ?S))) [0..<N], st'))"
    and s': "well_formed st'" "segment_count st' = 1" "segment_sizes st' ! 0 = ?S" "cell_count st' ! 0 = N"
      "max_segment_size st' = max_segment_size st"
    and full: "\<forall>c < N. cell_used st' 0 c \<longleftrightarrow> c < 0 + N"
    by auto
  from a have a': "alloc_many N st ?S = Some (Returns (map Some ?ps, st'))"
    by (simp add: comp_def)
  from s'(1) have "tables_ok st'" by (simp add: well_formed_def)
  with s'(2,3) have mx: "max_segment_size st' = ?S"
    by (simp add: tables_ok_def)
  from assms(3) have sz: "1 \<le> ?S" "?S \<le> max_segment_size st'" by (simp_all add: mx)
  have k: "0 < segment_count st'" "?S \<le> segment_sizes st' ! 0" "\<forall>j < (0::nat). segment_sizes st' ! j < ?S"
    using s'(2,3) by simp_all
  from full s'(4) have f: "\<forall>c < cell_count st' ! 0. cell_used st' 0 c" by simp
  from alloc_full(2) [OF s'(1) sz k f] s'(2)
  have last: "alloc st' ?S = Some (Returns (None, st'))" by simp
  have inside: "\<forall>i < N. 0 \<le> ?ps ! i \<and> ?ps ! i + int ?S \<le> int (buffer_size st)"
  proof (intro allI impI)
    fix i assume i: "i < N"
    then have "Suc i * ?S \<le> N * ?S" by (intro mult_le_mono1) simp
    with i show "0 \<le> ?ps ! i \<and> ?ps ! i + int ?S \<le> int (buffer_size st)"
      unfolding bs by (simp add: nat_int_comparison(3))
  qed
  have apart: "\<forall>i < N. \<forall>j < N. i < j \<longrightarrow> ?ps ! i + int ?S \<le> ?ps ! j"
  proof (intro allI impI)
    fix i j assume ij: "i < N" "j < N" "i < j"
    then have "Suc i * ?S \<le> j * ?S" by (intro mult_le_mono1) simp
    with ij show "?ps ! i + int ?S \<le> ?ps ! j"
      by (simp add: nat_int_comparison(3))
  qed
  from b a' inside apart last show ?thesis by blast
qed

theorem single_segment_exhaustive_witness:
  "\<exists>st st'.
     mempool_begin (\<lambda>_. False) mempool_new [\<lparr>seg_count = 4, seg_size = 1\<rparr>] 1 = Returns (True, st)
     \<and> alloc_many 4 st 4 = Some (Returns ([Some 0, Some 4, Some 8, Some 12], st'))
     \<and> alloc st' 4 = Some (Returns (None, st'))"
  using single_segment_exhaustive [of 4 1] by (auto simp: upt_rec)

text \<open>
  With 8193 cells the segment has 257 groups; \<open>_prepare_mask\<close> takes the group count as a
  \<open>uint8_t\<close>, so the group mask is built for one group: \<open>begin\<close> succeeds, 32 calls get a cell
  and the 33rd returns null.
\<close>

lemma wide_begin:
  "\<exists>st. mempool_begin (\<lambda>_. False) mempool_new [\<lparr>seg_count = 8193, seg_size = 1\<rparr>] 1 = Returns (True, st)
     \<and> segment_count st = 1 \<and> max_segment_size st = 4 \<and> segment_lookup st = [0]
     \<and> segment_sizes st = [4] \<and> cell_count st = [8193] \<and> pool_ptr st = [0] \<and> segment_ptr st = [0]
     \<and> pool_buffer st = (replicate 258 0)[0 := - 2, 257 := - 2]"
  by (simp add: begin_defs mempool_new_def get_next_segment_def SEGMENT_STEP_def Let_def
      init_lookup_def lookup_segment_def init_pointers_def init_magic_def not_pow2_def prepare_mask_def)

theorem wide_segment_not_exhaustive:
  "\<exists>st st'.
     mempool_begin (\<lambda>_. False) mempool_new [\<lparr>seg_count = 8193, seg_size = 1\<rparr>] 1 = Returns (True, st)
     \<and> alloc_many 33 st 4 = Some (Returns (map (\<lambda>j. Some (int (j * 4))) [0..<32] @ [None], st'))"
proof -
  from wide_begin obtain st where
    b: "mempool_begin (\<lambda>_. False) mempool_new [\<lparr>seg_count = 8193, seg_size = 1\<rparr>] 1 = Returns (True, st)"
    and f: "segment_count st = 1" "max_segment_size st = 4" "segment_lookup st = [0]"
      "segment_sizes st = [4]" "cell_count st = [8193]" "pool_ptr st = [0]" "segment_ptr st = [0]"
      "pool_buffer st = (replicate 258 0)[0 := - 2, 257 := - 2]"
    by blast
  from f have n: "narrow st" by (simp add: narrow_def)
  from f(8) have w: "pool_buffer st ! 0 = - 2" "pool_buffer st ! 1 = mask 0" by simp_all
  from narrow_exhaust [OF n w, of 31] obtain st' where
    "alloc_many 33 st 4 = Some (Returns (map (\<lambda>j. Some (int (j * 4))) [0..<32] @ [None], st'))"
    by auto
  with b show ?thesis by blast
qed

subsection \<open>Escalation\<close>










subsection \<open>The mask invariant along a run\<close>

text \<open>A group mask that is not entirely 1 has a lowest free cell below it.\<close>

lemma lowest_free_cell:
  assumes wf: "well_formed st" and sg: "sg < segment_count st"
    and nf: "\<not> (\<forall>c < cell_count st ! sg. cell_used st sg c)"
  obtains c0 where "c0 < cell_count st ! sg" "\<not> cell_used st sg c0" "\<forall>c < c0. cell_used st sg c"
proof -
  let ?P = "\<lambda>c. c < cell_count st ! sg \<and> \<not> cell_used st sg c"
  from nf have "\<exists>c. ?P c" by blast
  then obtain c0 where c0: "?P c0" "\<forall>c < c0. \<not> ?P c"
    unfolding exists_least_iff [of ?P] by blast
  from c0(2) c0(1) have "\<forall>c < c0. cell_used st sg c" by auto
  with c0(1) show thesis by (intro that [of c0]) simp_all
qed

lemma alloc_in_segment_wf:
  assumes wf: "well_formed st" and sg: "sg < segment_count st"
    and a: "alloc_in_segment st sg = Done (Returns (p, st'))"
  shows "well_formed st'"
proof (cases "\<forall>c < cell_count st ! sg. cell_used st sg c")
  case True
  from alloc_in_segment_full [OF wf sg True] a have "st' = st"
    by (simp split: if_splits)
  with wf show ?thesis by simp
next
  case False
  from lowest_free_cell [OF wf sg False] obtain c0 where
    "c0 < cell_count st ! sg" "\<not> cell_used st sg c0" "\<forall>c < c0. cell_used st sg c"
    by blast
  from alloc_in_segment_free [OF wf sg this] a show ?thesis by auto
qed

lemma alloc_step_wf:
  assumes wf: "well_formed st" and a: "alloc_step st sz = Done (Returns (p, st'))"
  shows "well_formed st'"
proof (cases "sz \<le> max_segment_size st \<and> resolve_segment st sz < segment_count st")
  case True
  with a have s: "alloc_in_segment st (resolve_segment st sz) = Done (Returns (p, st'))"
    by (simp add: alloc_step_def split: if_splits)
  from True have "resolve_segment st sz < segment_count st" by simp
  from alloc_in_segment_wf [OF wf this s] show ?thesis .
next
  case False
  with a have "st' = st"
    by (auto simp: alloc_step_def split: if_splits)
  with wf show ?thesis by simp
qed

lemma alloc_wf:
  assumes "well_formed st" "alloc st sz = Some (Returns (p, st'))"
  shows "well_formed st'"
  using alloc_Some_step [OF assms(2)] alloc_step_wf [OF assms(1)] by blast

lemma valid_run_wf: "valid_run st \<Longrightarrow> well_formed st"
proof (induction rule: valid_run.induct)
  case (init oom segs count st)
  from begin_wf(1) [OF init(1) _ init(2)] show ?case by simp
next
  case (alloc st sz p st')
  from alloc_wf [OF alloc.IH alloc.hyps(2)] show ?case .
next
  case (release st k i st')
  from release_cell_address [OF release.IH release.hyps(2,3)] release.hyps(4) show ?case by auto
qed

text \<open>
  C5, for pools of 1 to 992 cells: after \<open>begin\<close>, after every \<open>alloc\<close> and after every
  \<open>release\<close> of the address of a cell, in every pool group bit \<open>g\<close> is the conjunction of the
  32 bits of cell word \<open>g\<close>, the group bits from \<open>ceil(cellCount / 32)\<close> on are 1, and the
  bits of the last cell word from \<open>cellCount\<close> on are 1.
\<close>

theorem mask_invariant:
  assumes "valid_run st"
  shows "mask_inv st"
  using valid_run_wf [OF assms] by (simp add: well_formed_def)

theorem mask_invariant_witness:
  "\<exists>s1 s2. alloc scenario 4 = Some (Returns (Some 0, s1))
      \<and> release s1 (Some 0) = Some (Returns s2)
      \<and> valid_run s2 \<and> mask_inv s2"
proof -
  have cc: "\<forall>i < (2::nat). 1 \<le> unat (seg_count ([\<lparr>seg_count = 4, seg_size = 1\<rparr>, \<lparr>seg_count = 2, seg_size = 4\<rparr>] ! i))
      \<and> unat (seg_count ([\<lparr>seg_count = 4, seg_size = 1\<rparr>, \<lparr>seg_count = 2, seg_size = 4\<rparr>] ! i)) \<le> 992"
    by (simp add: all_less_2)
  from valid_run.init [OF scenario_begin cc] have vr0: "valid_run scenario" .
  note wf0 = valid_run_wf [OF vr0]
  from begin_wf(2) [OF scenario_begin _ cc]
  have free: "\<forall>k < segment_count scenario. \<forall>c < cell_count scenario ! k. \<not> cell_used scenario k c"
    by simp
  from wf0 have t: "tables_ok scenario" and l: "layout_ok scenario" by (simp_all add: well_formed_def)
  from t have sc: "segment_count scenario = 2" and mx: "max_segment_size scenario = 16"
    by (simp_all add: tables_ok_def scenario_tables)
  from l sc have sp: "segment_ptr scenario ! 0 = 0" by (simp add: layout_ok_def)
  have a: "\<exists>st'. alloc scenario 4 = Some (Returns (Some (int (segment_ptr scenario ! 0 + 0 * segment_sizes scenario ! 0)), st'))
          \<and> well_formed st'
          \<and> (\<forall>j c. j < segment_count scenario \<longrightarrow> c < cell_count scenario ! j \<longrightarrow>
                (cell_used st' j c \<longleftrightarrow> cell_used scenario j c \<or> (j = 0 \<and> c = 0)))
          \<and> st' = scenario\<lparr>pool_buffer := pool_buffer st'\<rparr>"
    by (rule alloc_free_cell [OF wf0]) (use sc mx free in \<open>simp_all add: scenario_tables\<close>)
  then obtain s1 where a1: "alloc scenario 4 = Some (Returns (Some 0, s1))"
    and e1: "s1 = scenario\<lparr>pool_buffer := pool_buffer s1\<rparr>"
    using sp by auto
  have f1: "segment_count s1 = 2" "cell_count s1 = [4, 2]" "segment_ptr s1 ! 0 = 0"
    using sc sp scenario_tables by (subst e1, simp)+
  from valid_run.alloc [OF vr0 a1] have vr1: "valid_run s1" .
  have k: "0 < segment_count s1" "0 < cell_count s1 ! 0" by (simp_all add: f1)
  from release_cell_address [OF valid_run_wf [OF vr1] k] obtain s2 where
    r: "release s1 (Some (int (segment_ptr s1 ! 0 + 0 * segment_sizes s1 ! 0))) = Some (Returns s2)"
    by blast
  from valid_run.release [OF vr1 k r] have vr2: "valid_run s2" .
  from r f1 have r': "release s1 (Some 0) = Some (Returns s2)" by simp
  from a1 r' vr2 mask_invariant [OF vr2] show ?thesis by blast
qed

text \<open>
  Outside 1 to 992 cells the invariant fails right after \<open>begin\<close>. A descriptor of 0 cells
  is accepted; its pool has no group, and the group mask is written as \<open>_prepare_mask(0)\<close>,
  which is 0: none of the bits beyond the (zero) groups is set. A descriptor of 8193 cells
  is accepted too; the group count 257 reaches \<open>_prepare_mask\<close> as 1, so group bit 1 is set
  while cell word 1 is 0.
\<close>

lemma zero_begin:
  "\<exists>st. mempool_begin (\<lambda>_. False) mempool_new [\<lparr>seg_count = 0, seg_size = 1\<rparr>] 1 = Returns (True, st)
     \<and> segment_count st = 1 \<and> cell_count st = [0] \<and> pool_ptr st = [0] \<and> pool_buffer st = [0]"
  by (simp add: begin_defs mempool_new_def get_next_segment_def SEGMENT_STEP_def Let_def
      init_lookup_def lookup_segment_def init_pointers_def init_magic_def not_pow2_def prepare_mask_def)

theorem mask_invariant_fails_outside_range:
  "(\<exists>st. mempool_begin (\<lambda>_. False) mempool_new [\<lparr>seg_count = 0, seg_size = 1\<rparr>] 1 = Returns (True, st)
     \<and> cell_count st ! 0 = 0 \<and> pool_buffer st ! (pool_ptr st ! 0) = 0 \<and> \<not> mask_inv st)
   \<and> (\<exists>st. mempool_begin (\<lambda>_. False) mempool_new [\<lparr>seg_count = 8193, seg_size = 1\<rparr>] 1 = Returns (True, st)
     \<and> cell_count st ! 0 = 8193 \<and> bit (pool_buffer st ! (pool_ptr st ! 0)) 1
     \<and> pool_buffer st ! (pool_ptr st ! 0 + 1 + 1) = 0 \<and> \<not> mask_inv st)"
proof
  from zero_begin obtain st where
    b: "mempool_begin (\<lambda>_. False) mempool_new [\<lparr>seg_count = 0, seg_size = 1\<rparr>] 1 = Returns (True, st)"
    and f: "segment_count st = 1" "cell_count st = [0]" "pool_ptr st = [0]" "pool_buffer st = [0]"
    by blast
  have "\<not> mask_inv st"
  proof
    assume "mask_inv st"
    with f(1) have q: "\<forall>g < 32. groups (cell_count st ! 0) \<le> g \<longrightarrow> bit (pool_buffer st ! (pool_ptr st ! 0)) g"
      unfolding mask_inv_def by simp
    have "groups (cell_count st ! 0) \<le> 0" "(0::nat) < 32"
      using f by (simp_all add: groups_def)
    with q have "bit (pool_buffer st ! (pool_ptr st ! 0)) 0" by blast
    with f show False by simp
  qed
  with b f show "\<exists>st. mempool_begin (\<lambda>_. False) mempool_new [\<lparr>seg_count = 0, seg_size = 1\<rparr>] 1 = Returns (True, st)
     \<and> cell_count st ! 0 = 0 \<and> pool_buffer st ! (pool_ptr st ! 0) = 0 \<and> \<not> mask_inv st"
    by auto
next
  from wide_begin obtain st where
    b: "mempool_begin (\<lambda>_. False) mempool_new [\<lparr>seg_count = 8193, seg_size = 1\<rparr>] 1 = Returns (True, st)"
    and f: "segment_count st = 1" "cell_count st = [8193]" "pool_ptr st = [0]"
      "pool_buffer st = (replicate 258 0)[0 := - 2, 257 := - 2]"
    by blast
  from f have g: "bit (pool_buffer st ! (pool_ptr st ! 0)) 1" "pool_buffer st ! (pool_ptr st ! 0 + 1 + 1) = 0"
    by (simp_all add: bit_minus_2)
  have "\<not> mask_inv st"
  proof
    assume "mask_inv st"
    with f(1) have q: "\<forall>g < groups (cell_count st ! 0).
           bit (pool_buffer st ! (pool_ptr st ! 0)) g
             \<longleftrightarrow> (\<forall>b < 32. bit (pool_buffer st ! (pool_ptr st ! 0 + 1 + g)) b)"
      unfolding mask_inv_def by simp
    have "1 < groups (cell_count st ! 0)" using f by (simp add: groups_def)
    with q g(1) have "\<forall>b < 32. bit (pool_buffer st ! (pool_ptr st ! 0 + 1 + 1)) b" by blast
    then have "bit (pool_buffer st ! (pool_ptr st ! 0 + 1 + 1)) 0" by simp
    with g(2) show False by simp
  qed
  with b f g show "\<exists>st. mempool_begin (\<lambda>_. False) mempool_new [\<lparr>seg_count = 8193, seg_size = 1\<rparr>] 1 = Returns (True, st)
     \<and> cell_count st ! 0 = 8193 \<and> bit (pool_buffer st ! (pool_ptr st ! 0)) 1
     \<and> pool_buffer st ! (pool_ptr st ! 0 + 1 + 1) = 0 \<and> \<not> mask_inv st"
    by auto
qed

section \<open>C2: the recovered cell index is cut to 8 bits\<close>

text \<open>
  C2 says that the recovery of the cell index from the offset \<open>i * cellSize\<close> yields \<open>i\<close> for
  every cell of every pool, on the shift path and on the magic-number path. \<open>release\<close>
  stores the quotient in a \<open>uint8_t\<close>, so what it recovers is \<open>i mod 256\<close> (lemma
  \<open>cell_index_of_cell\<close>): in a pool of 257 cells the offset of cell 256 gives cell 0, with
  cells of 4 bytes (shift) and with cells of 12 bytes (magic number).
\<close>

theorem cell_index_truncated:
  "(\<exists>st. mempool_begin (\<lambda>_. False) mempool_new [\<lparr>seg_count = 257, seg_size = 1\<rparr>] 1 = Returns (True, st)
       \<and> cell_count st ! 0 = 257 \<and> segment_sizes st ! 0 = 4 \<and> \<not> not_pow2 (segment_sizes st ! 0)
       \<and> cell_index_of st 0 (256 * 4) = 0)
   \<and> (\<exists>st. mempool_begin (\<lambda>_. False) mempool_new [\<lparr>seg_count = 257, seg_size = 3\<rparr>] 1 = Returns (True, st)
       \<and> cell_count st ! 0 = 257 \<and> segment_sizes st ! 0 = 12 \<and> not_pow2 (segment_sizes st ! 0)
       \<and> cell_index_of st 0 (256 * 12) = 0)"
proof
  from single_begin [of 257 1] obtain st where
    b: "mempool_begin (\<lambda>_. False) mempool_new [\<lparr>seg_count = 257, seg_size = 1\<rparr>] 1 = Returns (True, st)"
    and s: "well_formed st" "segment_count st = 1" "segment_sizes st ! 0 = 4" "cell_count st ! 0 = 257"
    by auto
  from cell_index_of_cell(1) [OF s(1), of 0 256] s have "cell_index_of st 0 (256 * 4) = 0" by simp
  moreover have "\<not> not_pow2 4" by (simp add: not_pow2_def)
  ultimately show "\<exists>st. mempool_begin (\<lambda>_. False) mempool_new [\<lparr>seg_count = 257, seg_size = 1\<rparr>] 1 = Returns (True, st)
       \<and> cell_count st ! 0 = 257 \<and> segment_sizes st ! 0 = 4 \<and> \<not> not_pow2 (segment_sizes st ! 0)
       \<and> cell_index_of st 0 (256 * 4) = 0"
    using b s by auto
next
  from single_begin [of 257 3] obtain st where
    b: "mempool_begin (\<lambda>_. False) mempool_new [\<lparr>seg_count = 257, seg_size = 3\<rparr>] 1 = Returns (True, st)"
    and s: "well_formed st" "segment_count st = 1" "segment_sizes st ! 0 = 12" "cell_count st ! 0 = 257"
    by auto
  from cell_index_of_cell(1) [OF s(1), of 0 256] s have "cell_index_of st 0 (256 * 12) = 0" by simp
  moreover have "not_pow2 12" by (simp add: not_pow2_def)
  ultimately show "\<exists>st. mempool_begin (\<lambda>_. False) mempool_new [\<lparr>seg_count = 257, seg_size = 3\<rparr>] 1 = Returns (True, st)
       \<and> cell_count st ! 0 = 257 \<and> segment_sizes st ! 0 = 12 \<and> not_pow2 (segment_sizes st ! 0)
       \<and> cell_index_of st 0 (256 * 12) = 0"
    using b s by auto
qed

section \<open>C8: release of a cell from index 256 on frees another cell\<close>

text \<open>
  C8 says that an alloc/release pair leaves the set of free cells as it was, and that the
  next \<open>alloc\<close> returns the address just released when that cell is the lowest free one. In
  a pool of 257 cells of 4 bytes with cells 0 to 255 taken, \<open>alloc(4)\<close> returns cell 256
  (address 1024); \<open>release\<close> of that address clears the bits of cell 0, because the cell
  index is cut to 8 bits. After the pair cell 256 is still marked used and cell 0, which
  its owner never released, is free; the next \<open>alloc(4)\<close> returns address 0.
\<close>

theorem release_frees_wrong_cell:
  "\<exists>s0 ps s1 s2 s3 s4.
      mempool_begin (\<lambda>_. False) mempool_new [\<lparr>seg_count = 257, seg_size = 1\<rparr>] 1 = Returns (True, s0)
    \<and> alloc_many 256 s0 4 = Some (Returns (ps, s1))
    \<and> cell_used s1 0 0 \<and> \<not> cell_used s1 0 256
    \<and> alloc s1 4 = Some (Returns (Some 1024, s2))
    \<and> initialized s2 \<and> buffer_size s2 = 1028
    \<and> release s2 (Some 1024) = Some (Returns s3)
    \<and> \<not> cell_used s3 0 0 \<and> cell_used s3 0 256
    \<and> alloc s3 4 = Some (Returns (Some 0, s4))"
proof -
  from single_begin [of 257 1] obtain s0 where
    b: "mempool_begin (\<lambda>_. False) mempool_new [\<lparr>seg_count = 257, seg_size = 1\<rparr>] 1 = Returns (True, s0)"
    and s: "well_formed s0" "segment_count s0 = 1" "segment_sizes s0 ! 0 = 4" "cell_count s0 ! 0 = 257"
    and free: "\<forall>c < 257. \<not> cell_used s0 0 c"
    by auto
  from free have u0: "\<forall>c < 257. cell_used s0 0 c \<longleftrightarrow> c < 0" by simp
  from alloc_many_fill [OF s u0, of 256] obtain s1 where
    a: "alloc_many 256 s0 4 = Some (Returns (map (\<lambda>i. Some (int (i * 4))) [0..<256], s1))"
    and s1: "well_formed s1" "segment_count s1 = 1" "segment_sizes s1 ! 0 = 4" "cell_count s1 ! 0 = 257"
    and u1: "\<forall>c < 257. cell_used s1 0 c \<longleftrightarrow> c < 256"
    by auto
  have base: "segment_ptr st ! 0 = 0" "max_segment_size st = 4"
    if "well_formed st" "segment_count st = 1" "segment_sizes st ! 0 = 4" for st
    using that by (simp_all add: well_formed_def layout_ok_def tables_ok_def)
  note b1 = base [OF s1(1,2,3)]
  have "\<exists>st'. alloc s1 4 = Some (Returns (Some (int (segment_ptr s1 ! 0 + 256 * segment_sizes s1 ! 0)), st'))
          \<and> well_formed st'
          \<and> (\<forall>j c. j < segment_count s1 \<longrightarrow> c < cell_count s1 ! j \<longrightarrow>
                (cell_used st' j c \<longleftrightarrow> cell_used s1 j c \<or> (j = 0 \<and> c = 256)))
          \<and> st' = s1\<lparr>pool_buffer := pool_buffer st'\<rparr>"
    by (rule alloc_free_cell [OF s1(1)]) (use s1 b1 u1 in simp_all)
  then obtain s2 where a2: "alloc s1 4 = Some (Returns (Some 1024, s2))"
    and wf2: "well_formed s2"
    and u2: "\<forall>c < 257. cell_used s2 0 c \<longleftrightarrow> cell_used s1 0 c \<or> c = 256"
    and e2: "s2 = s1\<lparr>pool_buffer := pool_buffer s2\<rparr>"
    using s1 b1 by auto
  have s2: "segment_count s2 = 1" "segment_sizes s2 ! 0 = 4" "cell_count s2 ! 0 = 257"
    using s1 by (subst e2, simp)+
  note b2 = base [OF wf2 s2(1,2)]
  have "\<exists>st'. release s2 (Some (int (segment_ptr s2 ! 0 + 256 * segment_sizes s2 ! 0))) = Some (Returns st')
          \<and> well_formed st'
          \<and> (\<forall>j c. j < segment_count s2 \<longrightarrow> c < cell_count s2 ! j \<longrightarrow>
                (cell_used st' j c \<longleftrightarrow> cell_used s2 j c \<and> \<not> (j = 0 \<and> c = 256 mod 256)))
          \<and> st' = s2\<lparr>pool_buffer := pool_buffer st'\<rparr>"
    by (rule release_cell_address [OF wf2]) (use s2 in simp_all)
  then obtain s3 where r3: "release s2 (Some 1024) = Some (Returns s3)"
    and wf3: "well_formed s3"
    and u3: "\<forall>c < 257. cell_used s3 0 c \<longleftrightarrow> cell_used s2 0 c \<and> c \<noteq> 0"
    and e3: "s3 = s2\<lparr>pool_buffer := pool_buffer s3\<rparr>"
    using s2 b2 by auto
  have s3: "segment_count s3 = 1" "segment_sizes s3 ! 0 = 4" "cell_count s3 ! 0 = 257"
    using s2 by (subst e3, simp)+
  note b3 = base [OF wf3 s3(1,2)]
  from u1 have c1: "cell_used s1 0 0" "\<not> cell_used s1 0 256" by simp_all
  from u3 u2 have c3: "\<not> cell_used s3 0 0" "cell_used s3 0 256" by simp_all
  have "\<exists>st'. alloc s3 4 = Some (Returns (Some (int (segment_ptr s3 ! 0 + 0 * segment_sizes s3 ! 0)), st'))
          \<and> well_formed st'
          \<and> (\<forall>j c. j < segment_count s3 \<longrightarrow> c < cell_count s3 ! j \<longrightarrow>
                (cell_used st' j c \<longleftrightarrow> cell_used s3 j c \<or> (j = 0 \<and> c = 0)))
          \<and> st' = s3\<lparr>pool_buffer := pool_buffer st'\<rparr>"
    by (rule alloc_free_cell [OF wf3]) (use s3 b3 c3 in simp_all)
  then obtain s4 where a4: "alloc s3 4 = Some (Returns (Some 0, s4))"
    using b3 by auto
  from wf2 s2 have i2: "initialized s2" "buffer_size s2 = 1028"
    by (simp_all add: well_formed_def tables_ok_def layout_ok_def)
  from b a c1 a2 i2 r3 c3 a4 show ?thesis by blast
qed

theorem release_frees_wrong_cell_witness:
  "\<exists>s2 s3. initialized s2 \<and> (0::int) \<le> 1024 \<and> 1024 < int (buffer_size s2)
      \<and> release s2 (Some 1024) = Some (Returns s3)
      \<and> \<not> cell_used s3 0 0 \<and> cell_used s3 0 256"
proof -
  from release_frees_wrong_cell obtain s2 s3 where
    "initialized s2" "buffer_size s2 = 1028" "release s2 (Some 1024) = Some (Returns s3)"
    "\<not> cell_used s3 0 0" "cell_used s3 0 256"
    by blast
  then show ?thesis by (intro exI [of _ s2] exI [of _ s3]) simp
qed

end
